theory Spec2Isabelle
  imports Main "HOL-Library.Char_ord" "HOL-Library.List_Lexorder" "HOL-Library.Product_Lexorder"
begin

section \<open>Characters and the C++ library functions the program calls\<close>

abbreviation dquote :: char where "dquote \<equiv> CHR 0x22"
abbreviation comma :: char where "comma \<equiv> CHR '',''"
abbreviation newline :: char where "newline \<equiv> CHR 0x0A"
abbreviation cr :: char where "cr \<equiv> CHR 0x0D"
abbreviation hyphen :: char where "hyphen \<equiv> CHR ''-''"

text \<open>\<open>std::isspace\<close> and \<open>std::isdigit\<close> in the "C" locale.\<close>

definition isspace :: "char \<Rightarrow> bool" where
  "isspace c = (c = CHR '' '' \<or> c = CHR 0x09 \<or> c = newline \<or> c = CHR 0x0B \<or> c = CHR 0x0C \<or> c = cr)"

definition isdigit :: "char \<Rightarrow> bool" where
  "isdigit c = (48 \<le> (of_char c :: nat) \<and> (of_char c :: nat) \<le> 57)"

definition digit_val :: "char \<Rightarrow> nat" where
  "digit_val c = of_char c - 48"

text \<open>The value of a run of decimal digits, most significant first.\<close>

fun dec_val :: "nat \<Rightarrow> string \<Rightarrow> nat" where
  "dec_val acc [] = acc"
| "dec_val acc (c # cs) = dec_val (10 * acc + digit_val c) cs"

text \<open>
  \<open>std::stoi(str)\<close> (base 10, through \<open>strtol\<close>): leading white space is skipped, one
  optional sign is read, then the longest run of digits; whatever follows the digits is
  ignored. No digit at all throws \<open>std::invalid_argument\<close>, a value outside the range of
  \<open>int\<close> throws \<open>std::out_of_range\<close>; both are \<open>None\<close> here.
\<close>

definition stoi :: "string \<Rightarrow> int option" where
  "stoi s =
     (let t = dropWhile isspace s;
          neg = (t \<noteq> [] \<and> hd t = hyphen);
          u = (if t \<noteq> [] \<and> (hd t = hyphen \<or> hd t = CHR ''+'') then tl t else t);
          ds = takeWhile isdigit u;
          v = (if neg then - int (dec_val 0 ds) else int (dec_val 0 ds))
      in if ds = [] then None
         else if v < - 2147483648 \<or> 2147483647 < v then None
         else Some v)"

text \<open>\<open>s.substr(pos, n)\<close> for \<open>pos \<le> s.size()\<close>, the only way the program calls it.\<close>

definition substr :: "string \<Rightarrow> nat \<Rightarrow> nat \<Rightarrow> string" where
  "substr s pos n = take n (drop pos s)"

text \<open>Decimal rendering of an \<open>int\<close> by \<open>operator<<\<close>.\<close>

fun show_nat :: "nat \<Rightarrow> string" where
  "show_nat n = (if n < 10 then [char_of (48 + n)] else show_nat (n div 10) @ [char_of (48 + n mod 10)])"

declare show_nat.simps [simp del]

definition show_int :: "int \<Rightarrow> string" where
  "show_int i = (if i < 0 then hyphen # show_nat (nat (- i)) else show_nat (nat i))"

text \<open>
  \<open>os << std::setw(w) << std::setfill('0') << i\<close>: the text of \<open>i\<close>, padded on the left
  with the fill character up to the width; a longer text is written whole.
\<close>

definition setw_fill0 :: "nat \<Rightarrow> string \<Rightarrow> string" where
  "setw_fill0 w s = replicate (w - length s) (CHR ''0'') @ s"

section \<open>Date\<close>

record Date =
  dt_y :: int
  dt_m :: int
  dt_d :: int

text \<open>
  The fields are C++ \<open>int\<close>s. The program only compares them and takes remainders that
  it tests against zero, where the truncating \<open>%\<close> of C++ and \<open>mod\<close> agree.
\<close>

definition is_leap :: "int \<Rightarrow> bool" where
  "is_leap yr = ((yr mod 4 = 0 \<and> yr mod 100 \<noteq> 0) \<or> yr mod 400 = 0)"

definition md :: "int list" where
  "md = [31,28,31,30,31,30,31,31,30,31,30,31]"

definition valid_date :: "Date \<Rightarrow> bool" where
  "valid_date dt =
     (if dt_y dt < 1900 \<or> dt_m dt < 1 \<or> dt_m dt > 12 \<or> dt_d dt < 1 then False
      else let days = md ! nat (dt_m dt - 1) + (if dt_m dt = 2 \<and> is_leap (dt_y dt) then 1 else 0)
           in dt_d dt \<le> days)"

definition parse_date :: "string \<Rightarrow> Date option" where
  "parse_date s =
     (if length s \<noteq> 10 \<or> s ! 4 \<noteq> hyphen \<or> s ! 7 \<noteq> hyphen then None
      else case stoi (substr s 0 4) of None \<Rightarrow> None
       | Some yr \<Rightarrow>
      (case stoi (substr s 5 2) of None \<Rightarrow> None
       | Some mo \<Rightarrow>
      (case stoi (substr s 8 2) of None \<Rightarrow> None
       | Some dy \<Rightarrow>
         let dt = \<lparr>dt_y = yr, dt_m = mo, dt_d = dy\<rparr>
         in if valid_date dt then Some dt else None)))"

definition to_string :: "Date \<Rightarrow> string" where
  "to_string dt =
     setw_fill0 4 (show_int (dt_y dt)) @ ''-'' @
     setw_fill0 2 (show_int (dt_m dt)) @ ''-'' @
     setw_fill0 2 (show_int (dt_d dt))"

definition date_le :: "Date \<Rightarrow> Date \<Rightarrow> bool" where
  "date_le a b =
     (dt_y a < dt_y b \<or> (dt_y a = dt_y b \<and> (dt_m a < dt_m b \<or> (dt_m a = dt_m b \<and> dt_d a \<le> dt_d b))))"

section \<open>Text matching\<close>

text \<open>\<open>std::tolower\<close> in the "C" locale, on the character taken as an \<open>unsigned char\<close>.\<close>

definition tolower :: "char \<Rightarrow> char" where
  "tolower c = (if 65 \<le> (of_char c :: nat) \<and> (of_char c :: nat) \<le> 90 then char_of (of_char c + (32::nat)) else c)"

definition to_lower :: "string \<Rightarrow> string" where
  "to_lower s = map tolower s"

section \<open>CSV helpers\<close>

text \<open>The loop of \<open>csv_escape\<close>; \<open>out\<close> is the string built so far.\<close>

fun escape_loop :: "string \<Rightarrow> string \<Rightarrow> string" where
  "escape_loop out [] = out"
| "escape_loop out (c # cs) =
     escape_loop ((if c = dquote then out @ [dquote] else out) @ [c]) cs"

definition csv_escape :: "string \<Rightarrow> string" where
  "csv_escape s =
     (if \<not> list_ex (\<lambda>c. c = comma \<or> c = dquote \<or> c = newline) s then s
      else escape_loop [dquote] s @ [dquote])"

text \<open>
  The loop of \<open>csv_unescape\<close>; the second argument is the part of \<open>s\<close> from index \<open>i\<close> on.
  A quote followed by a quote gives one quote and moves \<open>i\<close> by two.
\<close>

fun unescape_loop :: "string \<Rightarrow> string \<Rightarrow> string" where
  "unescape_loop out [] = out"
| "unescape_loop out [c] = out @ [c]"
| "unescape_loop out (c # c' # cs) =
     (if c = dquote \<and> c' = dquote then unescape_loop (out @ [dquote]) cs
      else unescape_loop (out @ [c]) (c' # cs))"

definition csv_unescape :: "string \<Rightarrow> string" where
  "csv_unescape s =
     (if length s \<ge> 2 \<and> hd s = dquote \<and> last s = dquote
      then unescape_loop [] (substr s 1 (length s - 2))
      else s)"

text \<open>The first loop of \<open>csv_split_line\<close>, with its three variables.\<close>

fun split_loop :: "string list \<Rightarrow> string \<Rightarrow> bool \<Rightarrow> string \<Rightarrow> string list \<times> string" where
  "split_loop cols cur in_q [] = (cols, cur)"
| "split_loop cols cur in_q (c # cs) =
     (if c = dquote then split_loop cols (cur @ [c]) (\<not> in_q) cs
      else if c = comma \<and> \<not> in_q then split_loop (cols @ [cur]) [] in_q cs
      else split_loop cols (cur @ [c]) in_q cs)"

text \<open>The inner \<open>while\<close> of its second loop: line ends are popped off the back.\<close>

fun strip_eol :: "string \<Rightarrow> string" where
  "strip_eol s = (if s \<noteq> [] \<and> (last s = cr \<or> last s = newline) then strip_eol (butlast s) else s)"

declare strip_eol.simps [simp del]

definition csv_split_line :: "string \<Rightarrow> string list" where
  "csv_split_line line =
     (case split_loop [] [] False line of (cols, cur) \<Rightarrow> map strip_eol (cols @ [cur]))"

section \<open>Expenses and the store\<close>

text \<open>
  The amount is a \<open>double\<close>. Its type is a parameter here: the store only adds amounts,
  compares them with zero, and reads and writes them through the library
  (\<open>std::stod\<close>, \<open>operator<<\<close>), which the functions below take as arguments.
\<close>

record 'a Expense =
  date :: Date
  amount :: 'a
  category :: string
  description :: string

record 'a ExpenseManager =
  expenses :: "'a Expense list"

definition add :: "'a Expense \<Rightarrow> 'a ExpenseManager \<Rightarrow> 'a ExpenseManager" where
  "add e mgr = mgr\<lparr>expenses := expenses mgr @ [e]\<rparr>"

definition all :: "'a ExpenseManager \<Rightarrow> 'a Expense list" where
  "all mgr = expenses mgr"

fun range_loop :: "Date \<Rightarrow> Date \<Rightarrow> 'a Expense list \<Rightarrow> 'a Expense list \<Rightarrow> 'a Expense list" where
  "range_loop from to out [] = out"
| "range_loop from to out (e # es) =
     range_loop from to (if date_le from (date e) \<and> date_le (date e) to then out @ [e] else out) es"

definition filter_by_date_range :: "'a ExpenseManager \<Rightarrow> Date \<Rightarrow> Date \<Rightarrow> 'a Expense list" where
  "filter_by_date_range mgr from to = range_loop from to [] (expenses mgr)"

definition total :: "('a::{zero,plus}) Expense list \<Rightarrow> 'a" where
  "total list = foldl (\<lambda>s e. s + amount e) 0 list"

text \<open>
  \<open>std::map<std::string,double>\<close>: the entries, held in ascending key order, which is the
  order the map is iterated in. \<open>m[k] += v\<close> finds the entry of \<open>k\<close>, inserting one with
  the value \<open>0.0\<close> at its place in the order when there is none, and adds \<open>v\<close> to it.
\<close>

fun map_add_at :: "string \<Rightarrow> ('a::{zero,plus}) \<Rightarrow> (string \<times> 'a) list \<Rightarrow> (string \<times> 'a) list" where
  "map_add_at k v [] = [(k, 0 + v)]"
| "map_add_at k v ((k', x) # m) =
     (if k < k' then (k, 0 + v) # (k', x) # m
      else if k = k' then (k', x + v) # m
      else (k', x) # map_add_at k v m)"

fun totals_loop :: "(string \<times> 'a) list \<Rightarrow> ('a::{zero,plus}) Expense list \<Rightarrow> (string \<times> 'a) list" where
  "totals_loop m [] = m"
| "totals_loop m (e # es) = totals_loop (map_add_at (to_lower (category e)) (amount e) m) es"

definition totals_by_category :: "('a::{zero,plus}) Expense list \<Rightarrow> (string \<times> 'a) list" where
  "totals_by_category list = totals_loop [] list"

section \<open>Persistence\<close>

text \<open>
  The files the program can reach: the text of every file that opens for reading, and
  the paths that open for writing.
\<close>

record filesystem =
  files :: "string \<rightharpoonup> string"
  writable :: "string \<Rightarrow> bool"

definition header :: string where
  "header = ''date,amount,category,description''"

text \<open>
  \<open>std::getline(f, line)\<close> on the unread part of the stream: at the end of the file
  nothing is extracted and the call fails; otherwise the characters up to the next
  newline (or the end of the file) are the line, and the newline is consumed.
\<close>

definition getline :: "string \<Rightarrow> (string \<times> string) option" where
  "getline f =
     (if f = [] then None
      else Some (takeWhile (\<lambda>c. c \<noteq> newline) f, drop 1 (dropWhile (\<lambda>c. c \<noteq> newline) f)))"

text \<open>\<open>line.rfind(p, 0) == 0\<close>: the only match \<open>rfind\<close> may report is the one at index 0.\<close>

definition rfind0 :: "string \<Rightarrow> string \<Rightarrow> bool" where
  "rfind0 line p = (take (length p) line = p)"

definition encode_line :: "('a \<Rightarrow> string) \<Rightarrow> 'a Expense \<Rightarrow> string" where
  "encode_line fmt e =
     to_string (date e) @ [comma] @ fmt (amount e) @ [comma] @
     csv_escape (category e) @ [comma] @ csv_escape (description e) @ [newline]"

text \<open>
  \<open>save_csv\<close>; \<open>fmt\<close> is \<open>operator<<\<close> on a \<open>double\<close>. The result is the returned flag and
  the file system afterwards.
\<close>

definition save_csv :: "('a \<Rightarrow> string) \<Rightarrow> string \<Rightarrow> 'a ExpenseManager \<Rightarrow> filesystem \<Rightarrow> bool \<times> filesystem" where
  "save_csv fmt path mgr fs =
     (if \<not> writable fs path then (False, fs)
      else (True, fs\<lparr>files := (files fs)(path \<mapsto>
              foldl (\<lambda>f e. f @ encode_line fmt e) (header @ [newline]) (expenses mgr))\<rparr>))"

text \<open>
  \<open>parse_csv_line\<close>; \<open>stod\<close> is \<open>std::stod\<close>, with \<open>None\<close> for either exception it throws.
\<close>

definition parse_csv_line :: "(string \<Rightarrow> 'a option) \<Rightarrow> string \<Rightarrow> 'a ExpenseManager \<Rightarrow> 'a ExpenseManager" where
  "parse_csv_line stod line mgr =
     (let cols = csv_split_line line in
      if length cols < 4 then mgr
      else case parse_date (cols ! 0) of None \<Rightarrow> mgr
       | Some dt \<Rightarrow>
      (case stod (cols ! 1) of None \<Rightarrow> mgr
       | Some amt \<Rightarrow>
         mgr\<lparr>expenses := expenses mgr @
           [\<lparr>date = dt, amount = amt, category = csv_unescape (cols ! 2),
             description = csv_unescape (cols ! 3)\<rparr>]\<rparr>))"

text \<open>\<open>while (std::getline(f,line)) parse_csv_line(line);\<close>\<close>

function read_loop :: "(string \<Rightarrow> 'a option) \<Rightarrow> string \<Rightarrow> 'a ExpenseManager \<Rightarrow> 'a ExpenseManager" where
  "read_loop stod f mgr =
     (case getline f of None \<Rightarrow> mgr
      | Some (line, f') \<Rightarrow> read_loop stod f' (parse_csv_line stod line mgr))"
  by pat_completeness auto
termination
proof (relation "measure (\<lambda>(stod, f, mgr). length f)")
  show "wf (measure (\<lambda>(stod, f, mgr). length f))" by simp
next
  fix stod :: "string \<Rightarrow> 'a option" and f :: string and mgr :: "'a ExpenseManager"
    and x2 :: "string \<times> string" and line f'
  assume "getline f = Some x2" and "(line, f') = x2"
  then have "f \<noteq> []" and "f' = drop 1 (dropWhile (\<lambda>c. c \<noteq> newline) f)"
    by (auto simp: getline_def split: if_splits)
  then have "length f' < length f"
    using length_dropWhile_le [of "\<lambda>c. c \<noteq> newline" f]
    by (cases "dropWhile (\<lambda>c. c \<noteq> newline) f") auto
  then show "((stod, f', parse_csv_line stod line mgr), (stod, f, mgr)) \<in> measure (\<lambda>(stod, f, mgr). length f)"
    by simp
qed

declare read_loop.simps [simp del]

definition load_csv :: "(string \<Rightarrow> 'a option) \<Rightarrow> string \<Rightarrow> 'a ExpenseManager \<Rightarrow> filesystem \<Rightarrow> bool \<times> 'a ExpenseManager" where
  "load_csv stod path mgr fs =
     (case files fs path of None \<Rightarrow> (False, mgr)
      | Some f \<Rightarrow>
       (let mgr0 = mgr\<lparr>expenses := []\<rparr> in
        case getline f of None \<Rightarrow> (True, read_loop stod f mgr0)
        | Some (line, f') \<Rightarrow>
            (True, read_loop stod f'
               (if \<not> rfind0 line header then parse_csv_line stod line mgr0 else mgr0))))"

section \<open>Interactive entry\<close>

text \<open>
  Standard input is the list of the lines still to be read. \<open>std::getline(std::cin, s)\<close>
  takes the next line; at the end of the input it leaves \<open>s\<close> empty, every time it is
  called again. What the helpers print is left out.
\<close>

definition cin_getline :: "string list \<Rightarrow> string \<times> string list" where
  "cin_getline inp = (case inp of [] \<Rightarrow> ([], []) | l # rest \<Rightarrow> (l, rest))"

text \<open>
  The date loop of \<open>prompt_expense\<close>: it asks again until a line parses. At the end of the
  input the line is empty for ever; the loop then ends only if the empty line parses, and
  otherwise never returns, which is \<open>None\<close>.
\<close>

fun prompt_date_loop :: "string list \<Rightarrow> (Date \<times> string list) option" where
  "prompt_date_loop [] = (case parse_date [] of None \<Rightarrow> None | Some dt \<Rightarrow> Some (dt, []))"
| "prompt_date_loop (ds # rest) =
     (case parse_date ds of None \<Rightarrow> prompt_date_loop rest | Some dt \<Rightarrow> Some (dt, rest))"

text \<open>
  The amount loop of \<open>prompt_expense\<close>: it asks again when \<open>std::stod\<close> throws and when the
  value read is not at least zero.
\<close>

fun prompt_amount_loop :: "(string \<Rightarrow> ('a::{zero,ord}) option) \<Rightarrow> string list \<Rightarrow> ('a \<times> string list) option" where
  "prompt_amount_loop stod [] =
     (case stod [] of None \<Rightarrow> None
      | Some amt \<Rightarrow> if 0 \<le> amt then Some (amt, []) else None)"
| "prompt_amount_loop stod (s # rest) =
     (case stod s of None \<Rightarrow> prompt_amount_loop stod rest
      | Some amt \<Rightarrow> if 0 \<le> amt then Some (amt, rest) else prompt_amount_loop stod rest)"

definition prompt_expense :: "(string \<Rightarrow> ('a::{zero,ord}) option) \<Rightarrow> string list \<Rightarrow> ('a Expense \<times> string list) option" where
  "prompt_expense stod inp =
     (case prompt_date_loop inp of None \<Rightarrow> None
      | Some (dt, inp1) \<Rightarrow>
     (case prompt_amount_loop stod inp1 of None \<Rightarrow> None
      | Some (amt, inp2) \<Rightarrow>
        (case cin_getline inp2 of (cat, inp3) \<Rightarrow>
        (case cin_getline inp3 of (descr, inp4) \<Rightarrow>
           Some (\<lparr>date = dt, amount = amt,
                   category = (if cat = [] then ''Uncategorized'' else cat),
                   description = descr\<rparr>, inp4)))))"

section \<open>Notions of the specification\<close>

text \<open>The invariant of the specification on the store: no amount below zero.\<close>

definition amounts_ok :: "('a::{zero,ord}) ExpenseManager \<Rightarrow> bool" where
  "amounts_ok mgr = list_all (\<lambda>e. 0 \<le> amount e) (expenses mgr)"

text \<open>
  The year-then-month-then-day order of the specification is the lexicographic order of
  this triple.
\<close>

definition date_key :: "Date \<Rightarrow> int \<times> int \<times> int" where
  "date_key dt = (dt_y dt, dt_m dt, dt_d dt)"

text \<open>A field with every quote character doubled: what \<open>csv_escape\<close> puts between the outer quotes.\<close>

definition doubled :: "string \<Rightarrow> string" where
  "doubled s = concat (map (\<lambda>c. if c = dquote then [dquote, dquote] else [c]) s)"

text \<open>
  \<open>decodeExpense\<close> of the specification: at least four fields; field 0 a date; field 1 a
  number; fields 2 and 3 decoded; further fields ignored.
\<close>

definition decodeExpense :: "(string \<Rightarrow> 'a option) \<Rightarrow> string list \<Rightarrow> 'a Expense option" where
  "decodeExpense stod cols =
     (if length cols < 4 then None
      else case parse_date (cols ! 0) of None \<Rightarrow> None
       | Some dt \<Rightarrow>
      (case stod (cols ! 1) of None \<Rightarrow> None
       | Some amt \<Rightarrow>
         Some \<lparr>date = dt, amount = amt, category = csv_unescape (cols ! 2),
               description = csv_unescape (cols ! 3)\<rparr>))"

definition decode_line :: "(string \<Rightarrow> 'a option) \<Rightarrow> string \<Rightarrow> 'a Expense option" where
  "decode_line stod line = decodeExpense stod (csv_split_line line)"

text \<open>The lines of a file, as successive calls of \<open>std::getline\<close> deliver them.\<close>

function file_lines :: "string \<Rightarrow> string list" where
  "file_lines f = (case getline f of None \<Rightarrow> [] | Some (line, f') \<Rightarrow> line # file_lines f')"
  by pat_completeness auto
termination
proof (relation "measure length")
  show "wf (measure length)" by simp
next
  fix f :: string and x2 :: "string \<times> string" and line f'
  assume "getline f = Some x2" and "(line, f') = x2"
  then have "f \<noteq> []" and "f' = drop 1 (dropWhile (\<lambda>c. c \<noteq> newline) f)"
    by (auto simp: getline_def split: if_splits)
  then have "length f' < length f"
    using length_dropWhile_le [of "\<lambda>c. c \<noteq> newline" f]
    by (cases "dropWhile (\<lambda>c. c \<noteq> newline) f") auto
  then show "(f', f) \<in> measure length" by simp
qed

declare file_lines.simps [simp del]

text \<open>
  The loader of the specification: the first line is skipped when it is the header text
  itself and is a data line otherwise; every line that decodes gives a record, in file
  order, and a line that does not decode gives none.
\<close>

definition data_lines :: "string list \<Rightarrow> string list" where
  "data_lines ls = (case ls of [] \<Rightarrow> [] | l # rest \<Rightarrow> if l = header then rest else l # rest)"

definition load_spec :: "(string \<Rightarrow> 'a option) \<Rightarrow> string \<Rightarrow> 'a Expense list" where
  "load_spec stod f = List.map_filter (decode_line stod) (data_lines (file_lines f))"

text \<open>
  The fields that survive a save and a load: no newline, and no carriage return at the
  end unless the field is written quoted.
\<close>

definition field_ok :: "string \<Rightarrow> bool" where
  "field_ok s =
     (newline \<notin> set s \<and>
      (s = [] \<or> last s \<noteq> cr \<or> comma \<in> set s \<or> dquote \<in> set s))"

text \<open>The texts \<open>operator<<\<close> may write for an amount without breaking the line format.\<close>

definition amount_text_ok :: "string \<Rightarrow> bool" where
  "amount_text_ok t =
     (comma \<notin> set t \<and> dquote \<notin> set t \<and> newline \<notin> set t \<and> cr \<notin> set t)"

text \<open>
  A record that survives a save and a load: its date is one \<open>parse_date\<close> can return, its
  amount is written as a text that keeps the line format and that \<open>std::stod\<close> reads, and
  its two text fields are as above.
\<close>

definition record_ok :: "('a \<Rightarrow> string) \<Rightarrow> (string \<Rightarrow> 'a option) \<Rightarrow> 'a Expense \<Rightarrow> bool" where
  "record_ok fmt stod e =
     (valid_date (date e) \<and> dt_y (date e) \<le> 9999
      \<and> amount_text_ok (fmt (amount e)) \<and> stod (fmt (amount e)) \<noteq> None
      \<and> field_ok (category e) \<and> field_ok (description e))"

text \<open>The record with its amount written and read back: the amount "modulo its formatting".\<close>

definition reread :: "('a \<Rightarrow> string) \<Rightarrow> (string \<Rightarrow> 'a option) \<Rightarrow> 'a Expense \<Rightarrow> 'a Expense" where
  "reread fmt stod e = e\<lparr>amount := the (stod (fmt (amount e)))\<rparr>"

text \<open>The line \<open>save_csv\<close> writes for a record, without its final newline.\<close>

definition line_body :: "('a \<Rightarrow> string) \<Rightarrow> 'a Expense \<Rightarrow> string" where
  "line_body fmt e =
     to_string (date e) @ [comma] @ fmt (amount e) @ [comma] @
     csv_escape (category e) @ [comma] @ csv_escape (description e)"

section \<open>Dates: formatting and parsing\<close>

lemma of_char_digit: "a < 10 \<Longrightarrow> (of_char (char_of (48 + a :: nat)) :: nat) = 48 + a"
  by simp

lemma isdigit_char_of: "a < 10 \<Longrightarrow> isdigit (char_of (48 + a :: nat))"
  by (simp add: isdigit_def)

lemma digit_val_char_of: "a < 10 \<Longrightarrow> digit_val (char_of (48 + a :: nat)) = a"
  by (simp add: digit_val_def)

lemma isdigit_not_space: "isdigit c \<Longrightarrow> \<not> isspace c"
  by (auto simp: isdigit_def isspace_def)

lemma isdigit_not_sign: "isdigit c \<Longrightarrow> c \<noteq> hyphen \<and> c \<noteq> CHR ''+''"
  by (auto simp: isdigit_def)

lemma isdigit_not_special: "isdigit c \<Longrightarrow> c \<noteq> comma \<and> c \<noteq> dquote \<and> c \<noteq> newline \<and> c \<noteq> cr"
  by (auto simp: isdigit_def)

lemma stoi_digits:
  assumes "ds \<noteq> []" and "\<forall>c\<in>set ds. isdigit c" and "dec_val 0 ds \<le> 2147483647"
  shows "stoi ds = Some (int (dec_val 0 ds))"
proof -
  obtain c cs where ds: "ds = c # cs" using assms(1) by (cases ds) auto
  have c: "isdigit c" using assms(2) ds by simp
  have 1: "dropWhile isspace ds = ds" using c ds isdigit_not_space by simp
  have 2: "hd ds \<noteq> hyphen" "hd ds \<noteq> CHR ''+''" using c ds isdigit_not_sign by auto
  have 3: "takeWhile isdigit ds = ds" using assms(2) by (simp add: takeWhile_eq_all_conv)
  have u: "(if ds \<noteq> [] \<and> (hd ds = hyphen \<or> hd ds = CHR ''+'') then tl ds else ds) = ds"
    using 2 by simp
  show ?thesis unfolding stoi_def Let_def 1 u 3 using assms(1,3) 2 by simp
qed

lemma char_of_48: "char_of (48::nat) = CHR ''0''"
proof -
  have "(of_char (char_of (48::nat)) :: nat) = of_char (CHR ''0'')" by simp
  then show ?thesis by (simp only: of_char_eq_iff)
qed

lemma show_nat1: "n < 10 \<Longrightarrow> show_nat n = [char_of (48 + n)]"
  by (simp add: show_nat.simps [of n])

lemma show_nat2': "10 \<le> n \<Longrightarrow> n < 100 \<Longrightarrow> show_nat n = [char_of (48 + n div 10), char_of (48 + n mod 10)]"
  by (simp add: show_nat.simps [of n] show_nat1)

lemma show_nat3': "100 \<le> n \<Longrightarrow> n < 1000 \<Longrightarrow> show_nat n = [char_of (48 + n div 100), char_of (48 + n div 10 mod 10), char_of (48 + n mod 10)]"
  by (simp add: show_nat.simps [of n] show_nat2' div_mult2_eq [symmetric])

lemma show_nat4': "1000 \<le> n \<Longrightarrow> n < 10000 \<Longrightarrow> show_nat n =
   [char_of (48 + n div 1000), char_of (48 + n div 100 mod 10), char_of (48 + n div 10 mod 10), char_of (48 + n mod 10)]"
  by (simp add: show_nat.simps [of n] show_nat3' div_mult2_eq [symmetric])

lemma show_nat2: "n < 100 \<Longrightarrow> setw_fill0 2 (show_nat n) = [char_of (48 + n div 10), char_of (48 + n mod 10)]"
  by (cases "n < 10") (simp_all add: show_nat1 show_nat2' setw_fill0_def char_of_48)

lemma show_nat4:
  "1000 \<le> n \<Longrightarrow> n < 10000 \<Longrightarrow> setw_fill0 4 (show_nat n) =
     [char_of (48 + n div 1000), char_of (48 + n div 100 mod 10), char_of (48 + n div 10 mod 10), char_of (48 + n mod 10)]"
  by (simp add: show_nat4' setw_fill0_def)

lemma valid_date_bounds:
  assumes "valid_date dt"
  shows "1900 \<le> dt_y dt" "1 \<le> dt_m dt" "dt_m dt \<le> 12" "1 \<le> dt_d dt" "dt_d dt \<le> 31"
proof -
  show a: "1900 \<le> dt_y dt" "1 \<le> dt_m dt" "dt_m dt \<le> 12" "1 \<le> dt_d dt"
    using assms by (auto simp: valid_date_def split: if_splits)
  then have "dt_m dt = 1 \<or> dt_m dt = 2 \<or> dt_m dt = 3 \<or> dt_m dt = 4 \<or> dt_m dt = 5 \<or> dt_m dt = 6
      \<or> dt_m dt = 7 \<or> dt_m dt = 8 \<or> dt_m dt = 9 \<or> dt_m dt = 10 \<or> dt_m dt = 11 \<or> dt_m dt = 12"
    by presburger
  then show "dt_d dt \<le> 31"
    using assms a by (auto simp: valid_date_def md_def Let_def split: if_splits)
qed

lemma stoi2:
  assumes "n < 100"
  shows "stoi [char_of (48 + n div 10), char_of (48 + n mod 10)] = Some (int n)"
proof -
  have a: "n div 10 < 10" "n mod 10 < 10" using assms by auto
  have "stoi [char_of (48 + n div 10), char_of (48 + n mod 10)]
        = Some (int (dec_val 0 [char_of (48 + n div 10), char_of (48 + n mod 10)]))"
    using a by (intro stoi_digits) (simp_all add: isdigit_char_of digit_val_char_of)
  then show ?thesis using a by (simp add: digit_val_char_of)
qed

lemma stoi4:
  assumes "n < 10000"
  shows "stoi [char_of (48 + n div 1000), char_of (48 + n div 100 mod 10), char_of (48 + n div 10 mod 10), char_of (48 + n mod 10)] = Some (int n)"
proof -
  have a: "n div 1000 < 10" "n div 100 mod 10 < 10" "n div 10 mod 10 < 10" "n mod 10 < 10" using assms by auto
  let ?ds = "[char_of (48 + n div 1000), char_of (48 + n div 100 mod 10), char_of (48 + n div 10 mod 10), char_of (48 + n mod 10)]"
  have d2: "n div 100 = n div 10 div 10" and d3: "n div 1000 = n div 10 div 10 div 10"
    by (simp_all add: div_mult2_eq [symmetric])
  have e1: "n = 10 * (n div 10) + n mod 10" by simp
  have e2: "n div 10 = 10 * (n div 100) + n div 10 mod 10" unfolding d2 by simp
  have e3: "n div 100 = 10 * (n div 1000) + n div 100 mod 10" unfolding d2 d3 by simp
  have "dec_val 0 ?ds = 10 * (10 * (10 * (n div 1000) + n div 100 mod 10) + n div 10 mod 10) + n mod 10"
    using a by (simp add: digit_val_char_of)
  also have "\<dots> = n"
  proof -
    have "10 * (10 * (10 * A + B) + C) + D = n"
      if "n = 10 * Q1 + D" "Q1 = 10 * Q2 + C" "Q2 = 10 * A + B" for A B C D Q1 Q2 :: nat
      using that by simp
    from this [OF e1 e2 e3] show ?thesis .
  qed
  finally have v: "dec_val 0 ?ds = n" .
  have "stoi ?ds = Some (int (dec_val 0 ?ds))"
  proof (rule stoi_digits)
    show "?ds \<noteq> []" by simp
    show "\<forall>c\<in>set ?ds. isdigit c" using a by (simp add: isdigit_char_of)
    show "dec_val 0 ?ds \<le> 2147483647" unfolding v using assms by simp
  qed
  then show ?thesis unfolding v .
qed

lemma to_string_shape:
  assumes "valid_date dt" and "dt_y dt \<le> 9999"
  shows "to_string dt =
     [char_of (48 + nat (dt_y dt) div 1000), char_of (48 + nat (dt_y dt) div 100 mod 10),
      char_of (48 + nat (dt_y dt) div 10 mod 10), char_of (48 + nat (dt_y dt) mod 10), hyphen,
      char_of (48 + nat (dt_m dt) div 10), char_of (48 + nat (dt_m dt) mod 10), hyphen,
      char_of (48 + nat (dt_d dt) div 10), char_of (48 + nat (dt_d dt) mod 10)]"
proof -
  note b = valid_date_bounds [OF assms(1)]
  have y: "setw_fill0 4 (show_int (dt_y dt)) = [char_of (48 + nat (dt_y dt) div 1000), char_of (48 + nat (dt_y dt) div 100 mod 10),
      char_of (48 + nat (dt_y dt) div 10 mod 10), char_of (48 + nat (dt_y dt) mod 10)]"
    using b assms(2) by (simp add: show_int_def show_nat4)
  have m: "setw_fill0 2 (show_int (dt_m dt)) = [char_of (48 + nat (dt_m dt) div 10), char_of (48 + nat (dt_m dt) mod 10)]"
    using b by (simp add: show_int_def show_nat2)
  have d: "setw_fill0 2 (show_int (dt_d dt)) = [char_of (48 + nat (dt_d dt) div 10), char_of (48 + nat (dt_d dt) mod 10)]"
    using b by (simp add: show_int_def show_nat2)
  show ?thesis unfolding to_string_def y m d by simp
qed

lemma parse_date_to_string:
  assumes "valid_date dt" and "dt_y dt \<le> 9999"
  shows "parse_date (to_string dt) = Some dt"
proof -
  note b = valid_date_bounds [OF assms(1)]
  have y: "stoi [char_of (48 + nat (dt_y dt) div 1000), char_of (48 + nat (dt_y dt) div 100 mod 10),
      char_of (48 + nat (dt_y dt) div 10 mod 10), char_of (48 + nat (dt_y dt) mod 10)] = Some (dt_y dt)"
    using stoi4 [of "nat (dt_y dt)"] b assms(2) by simp
  have m: "stoi [char_of (48 + nat (dt_m dt) div 10), char_of (48 + nat (dt_m dt) mod 10)] = Some (dt_m dt)"
    using stoi2 [of "nat (dt_m dt)"] b by simp
  have d: "stoi [char_of (48 + nat (dt_d dt) div 10), char_of (48 + nat (dt_d dt) mod 10)] = Some (dt_d dt)"
    using stoi2 [of "nat (dt_d dt)"] b by simp
  have r: "\<lparr>dt_y = dt_y dt, dt_m = dt_m dt, dt_d = dt_d dt\<rparr> = dt" by simp
  show ?thesis
    unfolding to_string_shape [OF assms] parse_date_def
    using assms(1) by (simp add: substr_def y m d r Let_def)
qed

section \<open>Claims about dates\<close>

text \<open>
  C2. \<open>parse_date\<close> is meant to succeed only on ten characters of the form YYYY-MM-DD whose
  three components are digits throughout and name a calendar day. The month component
  \<open>1x\<close> is not numeric, yet \<open>std::stoi\<close> reads its leading digit and ignores the rest, so the
  text \<open>2024-1x-05\<close> is accepted as 5 January 2024.
\<close>

theorem parse_date_accepts_non_digits:
  "parse_date ''2024-1x-05'' = Some \<lparr>dt_y = 2024, dt_m = 1, dt_d = 5\<rparr>
   \<and> \<not> list_all isdigit (substr ''2024-1x-05'' 5 2)"
  by (simp add: parse_date_def stoi_def substr_def isspace_def isdigit_def digit_val_def
      valid_date_def md_def is_leap_def)

theorem parse_date_accepts_non_digits_witness:
  "\<exists>dt. parse_date ''2024-1x-05'' = Some dt \<and> dt_m dt = 1"
  using parse_date_accepts_non_digits by simp

text \<open>
  C4, as stated, fails: 1 January 10000 is a valid date (the year has no upper bound), its
  text has five year digits and eleven characters, and parsing it fails.
\<close>

theorem date_roundtrip_counterexample:
  "valid_date \<lparr>dt_y = 10000, dt_m = 1, dt_d = 1\<rparr>
   \<and> (1900::int) \<le> 10000
   \<and> parse_date (to_string \<lparr>dt_y = 10000, dt_m = 1, dt_d = 1\<rparr>) \<noteq> Some \<lparr>dt_y = 10000, dt_m = 1, dt_d = 1\<rparr>"
  by (simp add: valid_date_def md_def parse_date_def to_string_def show_int_def show_nat.simps
      setw_fill0_def)

text \<open>
  C4, amended: for every valid date (year at least 1900, a real calendar day) whose year
  is at most 9999, parsing the formatted text succeeds and gives the date back.
\<close>

theorem date_roundtrip:
  "valid_date dt \<Longrightarrow> dt_y dt \<le> 9999 \<Longrightarrow> parse_date (to_string dt) = Some dt"
  by (rule parse_date_to_string)

theorem date_roundtrip_witness:
  "valid_date \<lparr>dt_y = 2024, dt_m = 2, dt_d = 29\<rparr>
   \<and> dt_y \<lparr>dt_y = 2024, dt_m = 2, dt_d = 29\<rparr> \<le> 9999
   \<and> parse_date (to_string \<lparr>dt_y = 2024, dt_m = 2, dt_d = 29\<rparr>) = Some \<lparr>dt_y = 2024, dt_m = 2, dt_d = 29\<rparr>"
proof -
  have v: "valid_date \<lparr>dt_y = 2024, dt_m = 2, dt_d = 29\<rparr>"
    by (simp add: valid_date_def md_def is_leap_def)
  have b: "dt_y \<lparr>dt_y = 2024, dt_m = 2, dt_d = 29\<rparr> \<le> 9999" by simp
  show ?thesis using v b date_roundtrip [OF v b] by simp
qed

section \<open>Claims about the queries\<close>

lemma range_loop_filter:
  "range_loop from to out es = out @ filter (\<lambda>e. date_le from (date e) \<and> date_le (date e) to) es"
  by (induction es arbitrary: out) simp_all

lemma date_le_key: "date_le a b \<longleftrightarrow> date_key a \<le> date_key b"
  by (auto simp: date_le_def date_key_def less_eq_prod_def)

text \<open>
  C6. \<open>filter_by_date_range\<close> returns the records of the store whose date lies between
  \<open>from\<close> and \<open>to\<close>, both ends included, in the year-then-month-then-day order, and keeps
  them in the order of the store.
\<close>

theorem filter_by_date_range_correct:
  "filter_by_date_range mgr from to =
     filter (\<lambda>e. date_key from \<le> date_key (date e) \<and> date_key (date e) \<le> date_key to) (expenses mgr)"
  by (simp add: filter_by_date_range_def range_loop_filter date_le_key)

theorem filter_by_date_range_correct_witness:
  "filter_by_date_range
     \<lparr>expenses =
        [\<lparr>date = \<lparr>dt_y = 2024, dt_m = 1, dt_d = 1\<rparr>, amount = 10 :: int, category = ''Food'', description = ''a''\<rparr>,
         \<lparr>date = \<lparr>dt_y = 2024, dt_m = 1, dt_d = 15\<rparr>, amount = 5, category = ''food'', description = ''b''\<rparr>,
         \<lparr>date = \<lparr>dt_y = 2024, dt_m = 2, dt_d = 1\<rparr>, amount = 20, category = ''Rent'', description = ''c''\<rparr>]\<rparr>
     \<lparr>dt_y = 2024, dt_m = 1, dt_d = 1\<rparr> \<lparr>dt_y = 2024, dt_m = 1, dt_d = 15\<rparr>
   = [\<lparr>date = \<lparr>dt_y = 2024, dt_m = 1, dt_d = 1\<rparr>, amount = 10, category = ''Food'', description = ''a''\<rparr>,
      \<lparr>date = \<lparr>dt_y = 2024, dt_m = 1, dt_d = 15\<rparr>, amount = 5, category = ''food'', description = ''b''\<rparr>]"
  by (simp add: filter_by_date_range_correct date_key_def less_eq_prod_def)

section \<open>Claims about the field codec\<close>

lemma escape_loop_doubled: "escape_loop out s = out @ doubled s"
  by (induction s arbitrary: out) (simp_all add: doubled_def)

lemma unescape_loop_doubled: "unescape_loop out (doubled s) = out @ s"
proof (induction s arbitrary: out)
  case Nil
  then show ?case by (simp add: doubled_def)
next
  case (Cons c cs)
  show ?case
  proof (cases "c = dquote")
    case True
    then have "doubled (c # cs) = dquote # dquote # doubled cs" by (simp add: doubled_def)
    then show ?thesis using Cons.IH [of "out @ [dquote]"] True by simp
  next
    case False
    then have d: "doubled (c # cs) = c # doubled cs" by (simp add: doubled_def)
    show ?thesis
    proof (cases "doubled cs")
      case Nil
      then have "cs = []" by (cases cs) (auto simp: doubled_def split: if_splits)
      then show ?thesis using d Nil by simp
    next
      case (Cons c' r)
      then have "unescape_loop out (c # doubled cs) = unescape_loop (out @ [c]) (doubled cs)"
        using False by simp
      then show ?thesis using d Cons.IH [of "out @ [c]"] by simp
    qed
  qed
qed

lemma csv_escape_plain:
  "comma \<notin> set s \<Longrightarrow> dquote \<notin> set s \<Longrightarrow> newline \<notin> set s \<Longrightarrow> csv_escape s = s"
  by (auto simp: csv_escape_def list_ex_iff)

lemma csv_escape_quoted:
  "comma \<in> set s \<or> dquote \<in> set s \<or> newline \<in> set s \<Longrightarrow> csv_escape s = dquote # doubled s @ [dquote]"
  by (auto simp: csv_escape_def list_ex_iff escape_loop_doubled)

lemma csv_unescape_plain: "dquote \<notin> set s \<Longrightarrow> csv_unescape s = s"
  by (cases s) (auto simp: csv_unescape_def)

lemma csv_unescape_quoted: "csv_unescape (dquote # t @ [dquote]) = unescape_loop [] t"
  by (simp add: csv_unescape_def substr_def)

lemma csv_unescape_escape: "csv_unescape (csv_escape s) = s"
proof (cases "comma \<in> set s \<or> dquote \<in> set s \<or> newline \<in> set s")
  case True
  then show ?thesis
    by (simp only: csv_escape_quoted csv_unescape_quoted unescape_loop_doubled append_Nil)
next
  case False
  then show ?thesis by (simp add: csv_escape_plain csv_unescape_plain)
qed

text \<open>
  C7. Decoding an encoded field gives the field back, for every string. The encoder
  quotes the field, doubling its quotes, exactly when it holds a comma, a quote or a
  newline; the decoder strips the outer pair and undoubles exactly when the text is
  at least two characters long and begins and ends with a quote.
\<close>

theorem field_roundtrip:
  "csv_unescape (csv_escape s) = s
   \<and> csv_escape s = (if comma \<in> set s \<or> dquote \<in> set s \<or> newline \<in> set s
                      then [dquote] @ doubled s @ [dquote] else s)
   \<and> csv_unescape t = (if 2 \<le> length t \<and> hd t = dquote \<and> last t = dquote
                        then unescape_loop [] (take (length t - 2) (drop 1 t)) else t)"
proof (intro conjI)
  show "csv_unescape (csv_escape s) = s" by (rule csv_unescape_escape)
  show "csv_escape s = (if comma \<in> set s \<or> dquote \<in> set s \<or> newline \<in> set s
                      then [dquote] @ doubled s @ [dquote] else s)"
    using csv_escape_plain [of s] csv_escape_quoted [of s] by auto
  show "csv_unescape t = (if 2 \<le> length t \<and> hd t = dquote \<and> last t = dquote
                        then unescape_loop [] (take (length t - 2) (drop 1 t)) else t)"
    by (simp add: csv_unescape_def substr_def)
qed

theorem field_roundtrip_witness:
  "csv_escape [CHR ''a'', comma, CHR ''b'', dquote, CHR ''c''] =
     [dquote, CHR ''a'', comma, CHR ''b'', dquote, dquote, CHR ''c'', dquote]
   \<and> csv_unescape [dquote, CHR ''a'', comma, CHR ''b'', dquote, dquote, CHR ''c'', dquote] =
     [CHR ''a'', comma, CHR ''b'', dquote, CHR ''c'']"
proof -
  let ?s = "[CHR ''a'', comma, CHR ''b'', dquote, CHR ''c'']"
  have e: "csv_escape ?s = [dquote, CHR ''a'', comma, CHR ''b'', dquote, dquote, CHR ''c'', dquote]"
    by (simp add: csv_escape_def)
  show ?thesis using field_roundtrip [of ?s "[]"] unfolding e by simp
qed

section \<open>Claims about the totals\<close>

lemma keys_map_add_at: "set (map fst (map_add_at k v m)) = insert k (set (map fst m))"
proof (induction m)
  case Nil
  then show ?case by simp
next
  case (Cons p m)
  obtain k' x where p: "p = (k', x)" by (cases p)
  show ?case
  proof (cases "k < k'")
    case True
    then show ?thesis unfolding p by simp
  next
    case False
    then show ?thesis using Cons.IH unfolding p by (cases "k = k'") auto
  qed
qed

lemma sorted_map_add_at:
  "sorted_wrt (<) (map fst m) \<Longrightarrow> sorted_wrt (<) (map fst (map_add_at k v m))"
proof (induction m)
  case Nil
  then show ?case by simp
next
  case (Cons p m)
  obtain k' x where p: "p = (k', x)" by (cases p)
  have IH: "sorted_wrt (<) (map fst (map_add_at k v m))" using Cons by simp
  have lt: "\<forall>j \<in> set (map fst m). k' < j" using Cons.prems p by auto
  show ?case
  proof (cases "k < k'")
    case True
    then show ?thesis using Cons.prems p by auto
  next
    case False
    show ?thesis
    proof (cases "k = k'")
      case True
      then show ?thesis using Cons.prems p by simp
    next
      case ne: False
      then have "k' < k" using False by auto
      then have "\<forall>j \<in> set (map fst (map_add_at k v m)). k' < j"
        using lt unfolding keys_map_add_at by simp
      then show ?thesis using False ne IH p by auto
    qed
  qed
qed

lemma map_of_map_add_at:
  "sorted_wrt (<) (map fst m) \<Longrightarrow>
   map_of (map_add_at k v m) j =
     (if j = k then Some ((case map_of m k of None \<Rightarrow> 0 | Some x \<Rightarrow> x) + v) else map_of m j)"
proof (induction m)
  case Nil
  then show ?case by simp
next
  case (Cons p m)
  obtain k' x where p: "p = (k', x)" by (cases p)
  have lt: "\<forall>j \<in> set (map fst m). k' < j" using Cons.prems p by auto
  have IH: "map_of (map_add_at k v m) j =
     (if j = k then Some ((case map_of m k of None \<Rightarrow> 0 | Some x \<Rightarrow> x) + v) else map_of m j)"
    using Cons by simp
  show ?case
  proof (cases "k < k'")
    case True
    then have "k \<notin> fst ` set m" using lt by force
    then have "map_of m k = None" by (simp add: map_of_eq_None_iff)
    then show ?thesis using True p by auto
  next
    case False
    then show ?thesis using IH p by auto
  qed
qed

lemma sorted_totals_loop:
  "sorted_wrt (<) (map fst m) \<Longrightarrow> sorted_wrt (<) (map fst (totals_loop m es))"
  by (induction es arbitrary: m) (simp_all add: sorted_map_add_at)

lemma map_of_totals_loop:
  "sorted_wrt (<) (map fst m) \<Longrightarrow>
   map_of (totals_loop m es) k =
     (if \<exists>e \<in> set es. to_lower (category e) = k
      then Some (foldl (+) (case map_of m k of None \<Rightarrow> 0 | Some x \<Rightarrow> x)
                   (map amount (filter (\<lambda>e. to_lower (category e) = k) es)))
      else map_of m k)"
proof (induction es arbitrary: m)
  case Nil
  then show ?case by simp
next
  case (Cons e es)
  let ?m' = "map_add_at (to_lower (category e)) (amount e) m"
  have s: "sorted_wrt (<) (map fst ?m')" using Cons.prems by (rule sorted_map_add_at)
  note IH = Cons.IH [OF s]
  note upd = map_of_map_add_at [OF Cons.prems, of "to_lower (category e)" "amount e" k]
  show ?case
  proof (cases "to_lower (category e) = k")
    case True
    then show ?thesis unfolding totals_loop.simps IH upd by auto
  next
    case False
    then show ?thesis unfolding totals_loop.simps IH upd by auto
  qed
qed

lemma total_foldl: "total list = foldl (+) 0 (map amount list)"
  by (simp add: total_def foldl_map)

text \<open>
  C8. \<open>totals_by_category\<close> has one entry for each lowercased category of the list, its
  value the sum (taken in the order of the list, from zero, as \<open>total\<close> takes it) of the
  amounts of the records whose category lowercases to that key; no other key has an
  entry, and the entries stand in strictly ascending key order.
\<close>

theorem totals_by_category_correct:
  fixes list :: "('a::{zero,plus}) Expense list"
  shows "sorted_wrt (<) (map fst (totals_by_category list))
   \<and> map_of (totals_by_category list) k =
       (if \<exists>e \<in> set list. to_lower (category e) = k
        then Some (total (filter (\<lambda>e. to_lower (category e) = k) list))
        else None)"
  by (simp add: totals_by_category_def sorted_totals_loop map_of_totals_loop total_foldl)

theorem totals_by_category_correct_witness:
  "map_of (totals_by_category
     [\<lparr>date = \<lparr>dt_y = 2024, dt_m = 1, dt_d = 1\<rparr>, amount = 10 :: int, category = ''Food'', description = ''a''\<rparr>,
      \<lparr>date = \<lparr>dt_y = 2024, dt_m = 1, dt_d = 15\<rparr>, amount = 5, category = ''food'', description = ''b''\<rparr>,
      \<lparr>date = \<lparr>dt_y = 2024, dt_m = 2, dt_d = 1\<rparr>, amount = 20, category = ''Rent'', description = ''c''\<rparr>])
     ''food'' = Some 15"
  using totals_by_category_correct [of
     "[\<lparr>date = \<lparr>dt_y = 2024, dt_m = 1, dt_d = 1\<rparr>, amount = 10 :: int, category = ''Food'', description = ''a''\<rparr>,
      \<lparr>date = \<lparr>dt_y = 2024, dt_m = 1, dt_d = 15\<rparr>, amount = 5, category = ''food'', description = ''b''\<rparr>,
      \<lparr>date = \<lparr>dt_y = 2024, dt_m = 2, dt_d = 1\<rparr>, amount = 20, category = ''Rent'', description = ''c''\<rparr>]"
     "''food''"]
  by (simp add: to_lower_def tolower_def char_of_eq_iff total_def)

section \<open>The loader\<close>

lemma parse_csv_line_decode:
  "parse_csv_line stod line mgr =
     (case decode_line stod line of None \<Rightarrow> mgr
      | Some e \<Rightarrow> mgr\<lparr>expenses := expenses mgr @ [e]\<rparr>)"
  by (simp add: parse_csv_line_def decode_line_def decodeExpense_def Let_def split: option.splits)

lemma foldl_parse_csv_line:
  "foldl (\<lambda>m l. parse_csv_line stod l m) mgr ls =
     mgr\<lparr>expenses := expenses mgr @ List.map_filter (decode_line stod) ls\<rparr>"
proof (induction ls arbitrary: mgr)
  case Nil
  then show ?case by simp
next
  case (Cons l ls)
  have "foldl (\<lambda>m l. parse_csv_line stod l m) mgr (l # ls) =
        foldl (\<lambda>m l. parse_csv_line stod l m) (parse_csv_line stod l mgr) ls"
    by simp
  also have "\<dots> = (parse_csv_line stod l mgr)\<lparr>expenses :=
       expenses (parse_csv_line stod l mgr) @ List.map_filter (decode_line stod) ls\<rparr>"
    by (rule Cons.IH)
  also have "\<dots> = mgr\<lparr>expenses := expenses mgr @ List.map_filter (decode_line stod) (l # ls)\<rparr>"
    unfolding parse_csv_line_decode [of stod l mgr]
    by (cases "decode_line stod l") (simp_all add: map_filter_simps)
  finally show ?case .
qed

lemma read_loop_file_lines:
  "read_loop stod f mgr = foldl (\<lambda>m l. parse_csv_line stod l m) mgr (file_lines f)"
proof (induction stod f mgr rule: read_loop.induct)
  case (1 stod f mgr)
  show ?case
  proof (cases "getline f")
    case None
    then show ?thesis by (simp add: read_loop.simps [of stod f] file_lines.simps [of f])
  next
    case (Some p)
    obtain line f' where p: "p = (line, f')" by (cases p)
    have "read_loop stod f' (parse_csv_line stod line mgr)
          = foldl (\<lambda>m l. parse_csv_line stod l m) (parse_csv_line stod line mgr) (file_lines f')"
      using "1.IH" Some p by simp
    then show ?thesis using Some p
      by (simp add: read_loop.simps [of stod f] file_lines.simps [of f])
  qed
qed

lemma split_loop_cols:
  "split_loop cols cur q xs = (cols', cur') \<Longrightarrow> \<exists>ys. cols' = cols @ ys"
proof (induction xs arbitrary: cols cur q)
  case Nil
  then show ?case by simp
next
  case (Cons c cs)
  show ?case
  proof (cases "c = dquote")
    case True
    then show ?thesis using Cons.IH [of cols "cur @ [c]" "\<not> q"] Cons.prems by simp
  next
    case False
    show ?thesis
    proof (cases "c = comma \<and> \<not> q")
      case True
      then obtain ys where "cols' = (cols @ [cur]) @ ys"
        using Cons.IH [of "cols @ [cur]" "[]" q] Cons.prems False by auto
      then show ?thesis by simp
    next
      case nc: False
      then show ?thesis using Cons.IH [of cols "cur @ [c]" q] Cons.prems False by auto
    qed
  qed
qed

lemma strip_eol_date_word: "strip_eol ''date'' = ''date''"
  by (simp add: strip_eol.simps [of "''date''"])

lemma header_line_no_record:
  assumes "rfind0 line header"
  shows "decode_line stod line = None"
proof -
  have l: "line = header @ drop (length header) line"
    using assms append_take_drop_id [of "length header" line] by (simp add: rfind0_def)
  define rest where "rest = ''amount,category,description'' @ drop (length header) line"
  have l': "line = ''date'' @ comma # rest"
    using l by (simp add: rest_def header_def)
  obtain cols' cur' where r: "split_loop [''date''] [] False rest = (cols', cur')"
    by (cases "split_loop [''date''] [] False rest")
  then obtain ys where ys: "cols' = [''date''] @ ys"
    using split_loop_cols by blast
  have "split_loop [] [] False line = (cols', cur')"
    unfolding l' using r by simp
  then have "csv_split_line line = map strip_eol ((''date'' # ys) @ [cur'])"
    using ys by (simp add: csv_split_line_def)
  then have "csv_split_line line ! 0 = ''date''"
    by (simp add: strip_eol_date_word)
  then have "parse_date (csv_split_line line ! 0) = None"
    by (simp add: parse_date_def)
  then show ?thesis
    by (simp add: decode_line_def decodeExpense_def)
qed

lemma load_csv_opened:
  assumes "files fs path = Some f"
  shows "load_csv stod path mgr fs =
     (True, mgr\<lparr>expenses := List.map_filter (decode_line stod) (file_lines f)\<rparr>)"
proof (cases "getline f")
  case None
  then show ?thesis using assms
    by (simp add: load_csv_def read_loop_file_lines foldl_parse_csv_line file_lines.simps [of f])
next
  case (Some p)
  obtain line f' where p: "p = (line, f')" by (cases p)
  have fl: "file_lines f = line # file_lines f'"
    using Some p by (simp add: file_lines.simps [of f])
  show ?thesis
  proof (cases "rfind0 line header")
    case True
    then have "decode_line stod line = None" by (rule header_line_no_record)
    then show ?thesis using assms Some p True fl
      by (simp add: load_csv_def read_loop_file_lines foldl_parse_csv_line)
  next
    case False
    have "load_csv stod path mgr fs =
        (True, read_loop stod f' (parse_csv_line stod line (mgr\<lparr>expenses := []\<rparr>)))"
      using assms Some p False by (simp add: load_csv_def)
    also have "\<dots> = (True, mgr\<lparr>expenses := List.map_filter (decode_line stod) (file_lines f)\<rparr>)"
      unfolding read_loop_file_lines foldl_parse_csv_line fl
        parse_csv_line_decode [of stod line "mgr\<lparr>expenses := []\<rparr>"]
      by (cases "decode_line stod line") (simp_all add: map_filter_simps)
    finally show ?thesis .
  qed
qed

lemma load_spec_all_lines:
  "load_spec stod f = List.map_filter (decode_line stod) (file_lines f)"
proof (cases "file_lines f")
  case Nil
  then show ?thesis by (simp add: load_spec_def data_lines_def)
next
  case (Cons l ls)
  show ?thesis
  proof (cases "l = header")
    case True
    then have "rfind0 l header" by (simp add: rfind0_def)
    then have "decode_line stod l = None" by (rule header_line_no_record)
    then show ?thesis using Cons True by (simp add: load_spec_def data_lines_def)
  next
    case False
    then show ?thesis using Cons by (simp add: load_spec_def data_lines_def)
  qed
qed

section \<open>Reading lines\<close>

lemma getline_Nil: "getline [] = None"
  by (simp add: getline_def)

lemma takeWhile_line: "newline \<notin> set l \<Longrightarrow> takeWhile (\<lambda>c. c \<noteq> newline) (l @ newline # rest) = l"
  by (induction l) auto

lemma dropWhile_line: "newline \<notin> set l \<Longrightarrow> dropWhile (\<lambda>c. c \<noteq> newline) (l @ newline # rest) = newline # rest"
  by (induction l) auto

lemma getline_line: "newline \<notin> set l \<Longrightarrow> getline (l @ newline # rest) = Some (l, rest)"
  by (simp add: getline_def takeWhile_line dropWhile_line)

lemma file_lines_Cons:
  "file_lines (c # cs) = (case getline (c # cs) of None \<Rightarrow> [] | Some (l, r) \<Rightarrow> l # file_lines r)"
  by (simp add: file_lines.simps [of "c # cs"])

lemma file_lines_Nil: "file_lines [] = []"
  by (simp add: file_lines.simps [of "[]"] getline_Nil)

lemma file_lines_line: "newline \<notin> set l \<Longrightarrow> file_lines (l @ newline # rest) = l # file_lines rest"
  by (simp add: file_lines.simps [of "l @ newline # rest"] getline_line)

lemma strip_eol_Nil: "strip_eol [] = []"
  by (simp add: strip_eol.simps [of "[]"])

lemma strip_eol_id: "s \<noteq> [] \<Longrightarrow> last s \<noteq> cr \<Longrightarrow> last s \<noteq> newline \<Longrightarrow> strip_eol s = s"
  by (simp add: strip_eol.simps [of s])

lemma strip_eol_snoc: "c = cr \<or> c = newline \<Longrightarrow> strip_eol (s @ [c]) = strip_eol s"
  by (simp add: strip_eol.simps [of "s @ [c]"])

lemmas date_eval = parse_date_def stoi_def substr_def isspace_def isdigit_def digit_val_def
  valid_date_def md_def is_leap_def

lemmas line_eval = decode_line_def decodeExpense_def csv_split_line_def strip_eol_id strip_eol_Nil
  csv_unescape_def

lemmas file_eval = file_lines_Cons file_lines_Nil getline_def

section \<open>Claims about loading\<close>

text \<open>
  C9. When the file opens, \<open>load_csv\<close> returns success and the store holds, in file order,
  the records of exactly the lines that decode; a line that does not decode adds nothing
  and does not change the result. A line fails to decode exactly when it has fewer than
  four fields, or its first field is not a date, or \<open>std::stod\<close> rejects its second field.
\<close>

theorem lenient_load:
  "files fs path = Some f \<Longrightarrow>
   load_csv stod path mgr fs =
     (True, mgr\<lparr>expenses := List.map_filter (decode_line stod) (file_lines f)\<rparr>)
   \<and> (decode_line stod l = None \<longleftrightarrow>
        (length (csv_split_line l) < 4
         \<or> parse_date (csv_split_line l ! 0) = None
         \<or> stod (csv_split_line l ! 1) = None))"
  by (simp add: load_csv_opened decode_line_def decodeExpense_def split: option.splits)

text \<open>
  The example of the specification: no header, one good line, one line with month 13.
  Amounts are whole numbers here, on which \<open>std::stod\<close> reads what \<open>std::stoi\<close> reads.
\<close>

theorem lenient_load_witness:
  "load_csv stoi ''e.csv'' \<lparr>expenses = []\<rparr>
     \<lparr>files = [''e.csv'' \<mapsto> ''2024-01-15,42,Food,Groceries'' @ newline # ''2024-13-01,5,Food,x'' @ newline # []],
      writable = (\<lambda>p. True)\<rparr>
   = (True, \<lparr>expenses = [\<lparr>date = \<lparr>dt_y = 2024, dt_m = 1, dt_d = 15\<rparr>, amount = 42,
                             category = ''Food'', description = ''Groceries''\<rparr>]\<rparr>)"
proof -
  let ?f = "''2024-01-15,42,Food,Groceries'' @ newline # ''2024-13-01,5,Food,x'' @ newline # []"
  let ?fs = "\<lparr>files = [''e.csv'' \<mapsto> ?f], writable = (\<lambda>p. True)\<rparr>"
  have o: "files ?fs ''e.csv'' = Some ?f" by simp
  have l: "file_lines ?f = [''2024-01-15,42,Food,Groceries'', ''2024-13-01,5,Food,x'']"
    by (simp add: file_eval)
  have d1: "decode_line stoi ''2024-01-15,42,Food,Groceries'' =
     Some \<lparr>date = \<lparr>dt_y = 2024, dt_m = 1, dt_d = 15\<rparr>, amount = 42, category = ''Food'', description = ''Groceries''\<rparr>"
    by (simp add: line_eval date_eval)
  have d2: "decode_line stoi ''2024-13-01,5,Food,x'' = None"
    by (simp add: line_eval date_eval)
  show ?thesis
    using lenient_load [OF o, of stoi "\<lparr>expenses = []\<rparr>" "[]"]
    unfolding l by (simp add: d1 d2 map_filter_simps)
qed

text \<open>
  C10. When the file does not open, \<open>load_csv\<close> returns failure and the store is what it
  was. When it opens, the result is success and does not depend on the records the
  store held before: they are discarded.
\<close>

theorem load_failure_keeps_store:
  "(files fs path = None \<longrightarrow> load_csv stod path mgr fs = (False, mgr))
   \<and> (files fs path \<noteq> None \<longrightarrow>
        fst (load_csv stod path mgr fs)
        \<and> load_csv stod path mgr fs = load_csv stod path (mgr\<lparr>expenses := []\<rparr>) fs)"
proof (intro conjI impI)
  assume "files fs path = None"
  then show "load_csv stod path mgr fs = (False, mgr)" by (simp add: load_csv_def)
next
  assume "files fs path \<noteq> None"
  then obtain f where f: "files fs path = Some f" by auto
  show "fst (load_csv stod path mgr fs)" by (simp add: load_csv_opened [OF f])
  show "load_csv stod path mgr fs = load_csv stod path (mgr\<lparr>expenses := []\<rparr>) fs"
    by (simp add: load_csv_opened [OF f])
qed

theorem load_failure_keeps_store_witness:
  "load_csv stoi ''missing.csv''
     \<lparr>expenses = [\<lparr>date = \<lparr>dt_y = 2024, dt_m = 1, dt_d = 15\<rparr>, amount = 42,
                    category = ''Food'', description = ''Groceries''\<rparr>]\<rparr>
     \<lparr>files = Map.empty, writable = (\<lambda>p. True)\<rparr>
   = (False, \<lparr>expenses = [\<lparr>date = \<lparr>dt_y = 2024, dt_m = 1, dt_d = 15\<rparr>, amount = 42,
                    category = ''Food'', description = ''Groceries''\<rparr>]\<rparr>)
   \<and> fst (load_csv stoi ''e.csv''
     \<lparr>expenses = [\<lparr>date = \<lparr>dt_y = 2024, dt_m = 1, dt_d = 15\<rparr>, amount = 42,
                    category = ''Food'', description = ''Groceries''\<rparr>]\<rparr>
     \<lparr>files = [''e.csv'' \<mapsto> []], writable = (\<lambda>p. True)\<rparr>)"
proof -
  let ?m = "\<lparr>expenses = [\<lparr>date = \<lparr>dt_y = 2024, dt_m = 1, dt_d = 15\<rparr>, amount = 42 :: int,
                    category = ''Food'', description = ''Groceries''\<rparr>]\<rparr>"
  let ?none = "\<lparr>files = Map.empty, writable = (\<lambda>p. True)\<rparr>"
  let ?one = "\<lparr>files = [''e.csv'' \<mapsto> []], writable = (\<lambda>p. True)\<rparr>"
  have n: "files ?none ''missing.csv'' = None" by simp
  have o: "files ?one ''e.csv'' \<noteq> None" by simp
  have 1: "load_csv stoi ''missing.csv'' ?m ?none = (False, ?m)"
    using load_failure_keeps_store [of ?none "''missing.csv''" stoi ?m, THEN conjunct1] n by blast
  have 2: "fst (load_csv stoi ''e.csv'' ?m ?one)"
    using load_failure_keeps_store [of ?one "''e.csv''" stoi ?m, THEN conjunct2] o by blast
  show ?thesis using 1 2 by blast
qed

text \<open>
  C5. With the file open and a first line read, that line is parsed as a record
  exactly when it is not the header text itself, and is skipped when it is; the
  remaining lines are read after it either way. So \<open>load_csv\<close> is the loader of the
  specification, which tests the first line for equality with the header. (The source
  tests whether the line begins with the header text; a line that does so and goes on
  never decodes, as its first field is not a date, so parsing it and skipping it come
  to the same.)
\<close>

theorem first_line_header_or_data:
  "files fs path = Some f \<Longrightarrow> getline f = Some (line, f') \<Longrightarrow>
   load_csv stod path mgr fs =
     (True, read_loop stod f'
        (if line \<noteq> header then parse_csv_line stod line (mgr\<lparr>expenses := []\<rparr>)
         else mgr\<lparr>expenses := []\<rparr>))
   \<and> load_csv stod path mgr fs = (True, mgr\<lparr>expenses := load_spec stod f\<rparr>)"
proof (intro conjI)
  assume f: "files fs path = Some f"
  show "load_csv stod path mgr fs = (True, mgr\<lparr>expenses := load_spec stod f\<rparr>)"
    by (simp add: load_csv_opened [OF f] load_spec_all_lines)
next
  assume f: "files fs path = Some f" and g: "getline f = Some (line, f')"
  show "load_csv stod path mgr fs =
     (True, read_loop stod f'
        (if line \<noteq> header then parse_csv_line stod line (mgr\<lparr>expenses := []\<rparr>)
         else mgr\<lparr>expenses := []\<rparr>))"
  proof (cases "rfind0 line header")
    case False
    then have "line \<noteq> header" by (auto simp: rfind0_def)
    then show ?thesis using f g False by (simp add: load_csv_def)
  next
    case True
    then have "decode_line stod line = None" by (rule header_line_no_record)
    then have "parse_csv_line stod line (mgr\<lparr>expenses := []\<rparr>) = mgr\<lparr>expenses := []\<rparr>"
      by (simp add: parse_csv_line_decode)
    then show ?thesis using f g True by (simp add: load_csv_def)
  qed
qed

theorem first_line_header_or_data_witness:
  "load_csv stoi ''e.csv'' \<lparr>expenses = []\<rparr>
     \<lparr>files = [''e.csv'' \<mapsto> header @ newline # ''2024-01-15,42,Food,Groceries'' @ newline # []],
      writable = (\<lambda>p. True)\<rparr>
   = (True, \<lparr>expenses = [\<lparr>date = \<lparr>dt_y = 2024, dt_m = 1, dt_d = 15\<rparr>, amount = 42,
                             category = ''Food'', description = ''Groceries''\<rparr>]\<rparr>)"
proof -
  let ?r = "''2024-01-15,42,Food,Groceries'' @ newline # []"
  let ?f = "header @ newline # ?r"
  let ?fs = "\<lparr>files = [''e.csv'' \<mapsto> ?f], writable = (\<lambda>p. True)\<rparr>"
  have o: "files ?fs ''e.csv'' = Some ?f" by simp
  have g: "getline ?f = Some (header, ?r)"
    by (rule getline_line) (simp add: header_def)
  have l: "file_lines ?r = [''2024-01-15,42,Food,Groceries'']"
    by (simp add: file_eval)
  have d1: "decode_line stoi ''2024-01-15,42,Food,Groceries'' =
     Some \<lparr>date = \<lparr>dt_y = 2024, dt_m = 1, dt_d = 15\<rparr>, amount = 42, category = ''Food'', description = ''Groceries''\<rparr>"
    by (simp add: line_eval date_eval)
  have r: "read_loop stoi ?r \<lparr>expenses = []\<rparr> =
     \<lparr>expenses = [\<lparr>date = \<lparr>dt_y = 2024, dt_m = 1, dt_d = 15\<rparr>, amount = 42,
                             category = ''Food'', description = ''Groceries''\<rparr>]\<rparr>"
    unfolding read_loop_file_lines foldl_parse_csv_line l by (simp add: map_filter_simps d1)
  show ?thesis
    using first_line_header_or_data [OF o g, of stoi "\<lparr>expenses = []\<rparr>", THEN conjunct1] r
    by (simp add: header_def)
qed

section \<open>Claims about the amounts in the store\<close>

lemma load_negative_line:
  fixes a :: "'a::{zero,ord}"
  assumes "stod ''-5'' = Some a"
    and "files fs path = Some (''2024-01-01,-5,Food,x'' @ [newline])"
  shows "load_csv stod path mgr fs =
     (True, mgr\<lparr>expenses := [\<lparr>date = \<lparr>dt_y = 2024, dt_m = 1, dt_d = 1\<rparr>, amount = a,
                                category = ''Food'', description = ''x''\<rparr>]\<rparr>)"
proof -
  have l: "file_lines (''2024-01-01,-5,Food,x'' @ [newline]) = [''2024-01-01,-5,Food,x'']"
    by (simp add: file_eval)
  have d: "decode_line stod ''2024-01-01,-5,Food,x'' =
     Some \<lparr>date = \<lparr>dt_y = 2024, dt_m = 1, dt_d = 1\<rparr>, amount = a, category = ''Food'', description = ''x''\<rparr>"
    using assms(1) by (simp add: line_eval date_eval)
  show ?thesis
    unfolding load_csv_opened [OF assms(2)] l by (simp add: map_filter_simps d)
qed

lemma prompt_amount_loop_nonneg:
  "prompt_amount_loop stod inp = Some (amt, rest) \<Longrightarrow> 0 \<le> amt"
  by (induction inp) (auto split: option.splits if_splits)

lemma prompt_expense_nonneg:
  "prompt_expense stod inp = Some (e, rest) \<Longrightarrow> 0 \<le> amount e"
  by (auto simp: prompt_expense_def split: option.splits prod.splits dest: prompt_amount_loop_nonneg)

lemma amounts_ok_add: "amounts_ok (add e mgr) \<longleftrightarrow> amounts_ok mgr \<and> 0 \<le> amount e"
  by (simp add: amounts_ok_def add_def)

lemma list_all_map_filter:
  "list_all P (List.map_filter g xs) \<longleftrightarrow> (\<forall>x \<in> set xs. \<forall>y. g x = Some y \<longrightarrow> P y)"
  by (induction xs) (auto simp: map_filter_simps split: option.splits)

lemma amounts_ok_load:
  assumes "files fs path = Some f"
  shows "amounts_ok (snd (load_csv stod path mgr fs)) \<longleftrightarrow>
     (\<forall>l \<in> set (file_lines f). \<forall>x. decode_line stod l = Some x \<longrightarrow> 0 \<le> amount x)"
  by (simp add: load_csv_opened [OF assms] amounts_ok_def list_all_map_filter)

text \<open>
  C3, as stated, fails. \<open>load_csv\<close> has no sign test: it stores whatever \<open>std::stod\<close>
  reads. From an empty store, which satisfies the invariant, the file with the one line
  \<open>2024-01-01,-5,Food,x\<close> loads with success and leaves a record of amount -5 in the
  store. (The amount is a whole number, on which \<open>std::stod\<close> reads what \<open>std::stoi\<close>
  reads.)
\<close>

theorem amount_invariant_counterexample:
  "amounts_ok \<lparr>expenses = ([] :: int Expense list)\<rparr>
   \<and> load_csv stoi ''e.csv'' \<lparr>expenses = []\<rparr>
     \<lparr>files = [''e.csv'' \<mapsto> ''2024-01-01,-5,Food,x'' @ [newline]], writable = (\<lambda>p. True)\<rparr>
   = (True, \<lparr>expenses = [\<lparr>date = \<lparr>dt_y = 2024, dt_m = 1, dt_d = 1\<rparr>, amount = - 5,
                             category = ''Food'', description = ''x''\<rparr>]\<rparr>)
   \<and> \<not> amounts_ok (snd (load_csv stoi ''e.csv'' \<lparr>expenses = []\<rparr>
     \<lparr>files = [''e.csv'' \<mapsto> ''2024-01-01,-5,Food,x'' @ [newline]], writable = (\<lambda>p. True)\<rparr>))"
proof -
  let ?fs = "\<lparr>files = [''e.csv'' \<mapsto> ''2024-01-01,-5,Food,x'' @ [newline]], writable = (\<lambda>p. True)\<rparr>"
  have s: "stoi ''-5'' = Some (- 5)" by (simp add: date_eval)
  have f: "files ?fs ''e.csv'' = Some (''2024-01-01,-5,Food,x'' @ [newline])" by simp
  note r = load_negative_line [where stod = stoi and a = "- 5" and mgr = "\<lparr>expenses = []\<rparr>", OF s f]
  show ?thesis unfolding r by (simp add: amounts_ok_def)
qed

text \<open>
  C3, amended. Every record that the interactive entry \<open>prompt_expense\<close> returns has an
  amount of at least zero, and \<open>add\<close> keeps the invariant exactly when the record it
  appends has one. \<open>load_csv\<close> applies no sign test: when the file opens, the store
  holds the records of the lines that decode, and every amount in it is at least zero
  exactly when the amount of every line that decodes is.
\<close>

theorem amount_invariant:
  fixes stod :: "string \<Rightarrow> ('a::{zero,ord}) option"
  shows "(prompt_expense stod inp = Some (e, rest) \<longrightarrow> 0 \<le> amount e)
   \<and> (amounts_ok (add e' mgr) \<longleftrightarrow> amounts_ok mgr \<and> 0 \<le> amount e')
   \<and> (files fs path = Some f \<longrightarrow>
        load_csv stod path mgr fs =
          (True, mgr\<lparr>expenses := List.map_filter (decode_line stod) (file_lines f)\<rparr>)
        \<and> (amounts_ok (snd (load_csv stod path mgr fs)) \<longleftrightarrow>
            (\<forall>l \<in> set (file_lines f). \<forall>x. decode_line stod l = Some x \<longrightarrow> 0 \<le> amount x)))"
  using prompt_expense_nonneg [of stod inp e rest] amounts_ok_add [of e' mgr]
    amounts_ok_load [of fs path f stod mgr] load_csv_opened [of fs path f stod mgr]
  by blast

theorem amount_invariant_witness:
  "prompt_expense stoi [''2024-13-01'', ''2024-01-15'', ''-5'', ''abc'', ''42'', [], ''Groceries'']
     = Some (\<lparr>date = \<lparr>dt_y = 2024, dt_m = 1, dt_d = 15\<rparr>, amount = 42,
               category = ''Uncategorized'', description = ''Groceries''\<rparr>, [])
   \<and> amounts_ok (add \<lparr>date = \<lparr>dt_y = 2024, dt_m = 1, dt_d = 15\<rparr>, amount = 42 :: int,
               category = ''Uncategorized'', description = ''Groceries''\<rparr> \<lparr>expenses = []\<rparr>)
   \<and> amounts_ok (snd (load_csv stoi ''e.csv'' \<lparr>expenses = []\<rparr>
        \<lparr>files = [''e.csv'' \<mapsto> ''2024-01-15,42,Food,Groceries'' @ [newline]], writable = (\<lambda>p. True)\<rparr>))"
proof -
  let ?inp = "[''2024-13-01'', ''2024-01-15'', ''-5'', ''abc'', ''42'', [], ''Groceries'']"
  let ?e = "\<lparr>date = \<lparr>dt_y = 2024, dt_m = 1, dt_d = 15\<rparr>, amount = 42 :: int,
               category = ''Uncategorized'', description = ''Groceries''\<rparr>"
  let ?f = "''2024-01-15,42,Food,Groceries'' @ [newline]"
  let ?fs = "\<lparr>files = [''e.csv'' \<mapsto> ?f], writable = (\<lambda>p. True)\<rparr>"
  let ?m0 = "\<lparr>expenses = ([] :: int Expense list)\<rparr>"
  note inv = amount_invariant [of stoi ?inp ?e "[]" ?e ?m0 ?fs "''e.csv''" ?f]
  have p: "prompt_expense stoi ?inp = Some (?e, [])"
    by (simp add: prompt_expense_def cin_getline_def date_eval)
  have a: "0 \<le> amount ?e" using inv p by blast
  have m: "amounts_ok ?m0" by (simp add: amounts_ok_def)
  have 1: "amounts_ok (add ?e ?m0)" using inv a m by blast
  have o: "files ?fs ''e.csv'' = Some ?f" by simp
  have l: "file_lines ?f = [''2024-01-15,42,Food,Groceries'']" by (simp add: file_eval)
  have d: "decode_line stoi ''2024-01-15,42,Food,Groceries'' =
     Some \<lparr>date = \<lparr>dt_y = 2024, dt_m = 1, dt_d = 15\<rparr>, amount = 42, category = ''Food'', description = ''Groceries''\<rparr>"
    by (simp add: line_eval date_eval)
  have "\<forall>l \<in> set (file_lines ?f). \<forall>x. decode_line stoi l = Some x \<longrightarrow> 0 \<le> amount x"
    unfolding l using d by simp
  then have 2: "amounts_ok (snd (load_csv stoi ''e.csv'' ?m0 ?fs))" using inv o by blast
  show ?thesis using p 1 2 by blast
qed

section \<open>Saving and loading\<close>

lemma split_loop_plain:
  "comma \<notin> set w \<Longrightarrow> dquote \<notin> set w \<Longrightarrow>
   split_loop cols cur False (w @ rest) = split_loop cols (cur @ w) False rest"
  by (induction w arbitrary: cur) auto

lemma doubled_Cons:
  "doubled (c # cs) = (if c = dquote then [dquote, dquote] else [c]) @ doubled cs"
  by (simp add: doubled_def)

lemma split_loop_doubled:
  "split_loop cols cur True (doubled s @ rest) = split_loop cols (cur @ doubled s) True rest"
proof (induction s arbitrary: cur)
  case Nil
  then show ?case by (simp add: doubled_def)
next
  case (Cons c cs)
  show ?case
  proof (cases "c = dquote")
    case True
    then show ?thesis using Cons.IH [of "cur @ [dquote, dquote]"] by (simp add: doubled_Cons)
  next
    case False
    then show ?thesis using Cons.IH [of "cur @ [c]"] by (simp add: doubled_Cons)
  qed
qed

lemma split_loop_escaped:
  "split_loop cols cur False (csv_escape s @ rest) = split_loop cols (cur @ csv_escape s) False rest"
proof (cases "comma \<in> set s \<or> dquote \<in> set s \<or> newline \<in> set s")
  case True
  have "split_loop cols cur False ((dquote # doubled s @ [dquote]) @ rest)
        = split_loop cols (cur @ [dquote]) True (doubled s @ dquote # rest)"
    by simp
  also have "\<dots> = split_loop cols ((cur @ [dquote]) @ doubled s) True (dquote # rest)"
    by (rule split_loop_doubled)
  also have "\<dots> = split_loop cols (cur @ dquote # doubled s @ [dquote]) False rest"
    by simp
  finally show ?thesis using True by (simp add: csv_escape_quoted)
next
  case False
  then show ?thesis by (simp add: csv_escape_plain split_loop_plain)
qed

lemma split_loop_encoded:
  assumes "comma \<notin> set d" "dquote \<notin> set d" "comma \<notin> set a" "dquote \<notin> set a"
  shows "split_loop [] [] False (d @ [comma] @ a @ [comma] @ csv_escape c @ [comma] @ csv_escape s)
         = ([d, a, csv_escape c], csv_escape s)"
proof -
  have "split_loop [] [] False (d @ [comma] @ a @ [comma] @ csv_escape c @ [comma] @ csv_escape s)
        = split_loop [d] [] False (a @ [comma] @ csv_escape c @ [comma] @ csv_escape s)"
    using assms(1,2) by (simp add: split_loop_plain)
  also have "\<dots> = split_loop [d, a] [] False (csv_escape c @ [comma] @ csv_escape s)"
    using assms(3,4) by (simp add: split_loop_plain)
  also have "\<dots> = split_loop [d, a, csv_escape c] [] False (csv_escape s)"
    by (simp add: split_loop_escaped)
  also have "\<dots> = split_loop [d, a, csv_escape c] (csv_escape s) False []"
    using split_loop_escaped [of "[d, a, csv_escape c]" "[]" s "[]"] by simp
  finally show ?thesis by simp
qed

lemma strip_eol_keep: "s = [] \<or> (last s \<noteq> cr \<and> last s \<noteq> newline) \<Longrightarrow> strip_eol s = s"
  by (auto simp: strip_eol.simps [of s])

lemma set_doubled: "set (doubled s) = set s"
  by (induction s) (auto simp: doubled_Cons doubled_def)

lemma field_ok_escape:
  assumes "field_ok s"
  shows "strip_eol (csv_escape s) = csv_escape s" and "newline \<notin> set (csv_escape s)"
proof -
  show "strip_eol (csv_escape s) = csv_escape s"
  proof (cases "comma \<in> set s \<or> dquote \<in> set s \<or> newline \<in> set s")
    case True
    then show ?thesis by (simp add: csv_escape_quoted strip_eol_keep)
  next
    case False
    have "s = [] \<or> (last s \<noteq> cr \<and> last s \<noteq> newline)"
    proof (cases "s = []")
      case True
      then show ?thesis by simp
    next
      case ne: False
      then have "last s \<in> set s" by simp
      then have "last s \<noteq> newline" using False by auto
      moreover have "last s \<noteq> cr" using assms False ne by (auto simp: field_ok_def)
      ultimately show ?thesis by simp
    qed
    then show ?thesis using False by (simp add: csv_escape_plain strip_eol_keep)
  qed
  show "newline \<notin> set (csv_escape s)"
    using assms by (auto simp: csv_escape_def field_ok_def escape_loop_doubled set_doubled)
qed

lemma to_string_chars:
  assumes "valid_date dt" and "dt_y dt \<le> 9999"
  shows "\<forall>c \<in> set (to_string dt). isdigit c \<or> c = hyphen"
proof -
  note b = valid_date_bounds [OF assms(1)]
  have "nat (dt_y dt) div 1000 < 10" "nat (dt_y dt) div 100 mod 10 < 10"
    "nat (dt_y dt) div 10 mod 10 < 10" "nat (dt_y dt) mod 10 < 10"
    "nat (dt_m dt) div 10 < 10" "nat (dt_m dt) mod 10 < 10"
    "nat (dt_d dt) div 10 < 10" "nat (dt_d dt) mod 10 < 10"
    using b assms(2) by auto
  then show ?thesis
    unfolding to_string_shape [OF assms] by (simp add: isdigit_char_of)
qed

lemma to_string_plain:
  assumes "valid_date dt" and "dt_y dt \<le> 9999"
  shows "comma \<notin> set (to_string dt)" "dquote \<notin> set (to_string dt)"
    "newline \<notin> set (to_string dt)" "strip_eol (to_string dt) = to_string dt"
proof -
  have c: "\<forall>c \<in> set (to_string dt). c \<noteq> comma \<and> c \<noteq> dquote \<and> c \<noteq> newline \<and> c \<noteq> cr"
    using to_string_chars [OF assms] isdigit_not_special by auto
  then show "comma \<notin> set (to_string dt)" "dquote \<notin> set (to_string dt)"
    "newline \<notin> set (to_string dt)" by auto
  have "to_string dt \<noteq> []" unfolding to_string_shape [OF assms] by simp
  then have "last (to_string dt) \<in> set (to_string dt)" by simp
  then have "last (to_string dt) \<noteq> cr \<and> last (to_string dt) \<noteq> newline" using c by blast
  then show "strip_eol (to_string dt) = to_string dt" by (simp add: strip_eol_keep)
qed

lemma amount_text_plain:
  assumes "amount_text_ok t"
  shows "strip_eol t = t"
proof (cases "t = []")
  case True
  then show ?thesis by (simp add: strip_eol_keep)
next
  case False
  then have "last t \<in> set t" by simp
  then have "last t \<noteq> cr \<and> last t \<noteq> newline" using assms by (auto simp: amount_text_ok_def)
  then show ?thesis by (simp add: strip_eol_keep)
qed

lemma decode_line_body:
  fixes e :: "'a Expense"
  assumes "record_ok fmt stod e"
  shows "decode_line stod (line_body fmt e) = Some (reread fmt stod e)"
proof -
  have v: "valid_date (date e)" "dt_y (date e) \<le> 9999" using assms by (auto simp: record_ok_def)
  have a: "amount_text_ok (fmt (amount e))" using assms by (simp add: record_ok_def)
  obtain x where x: "stod (fmt (amount e)) = Some x" using assms by (auto simp: record_ok_def)
  have fc: "field_ok (category e)" and fd: "field_ok (description e)"
    using assms by (auto simp: record_ok_def)
  have s: "split_loop [] [] False (line_body fmt e)
           = ([to_string (date e), fmt (amount e), csv_escape (category e)], csv_escape (description e))"
    unfolding line_body_def
    using to_string_plain(1,2) [OF v] a by (intro split_loop_encoded) (auto simp: amount_text_ok_def)
  have c: "csv_split_line (line_body fmt e)
           = [to_string (date e), fmt (amount e), csv_escape (category e), csv_escape (description e)]"
    by (simp add: csv_split_line_def s to_string_plain(4) [OF v] amount_text_plain [OF a]
        field_ok_escape(1) [OF fc] field_ok_escape(1) [OF fd])
  have "decode_line stod (line_body fmt e)
        = Some \<lparr>date = date e, amount = x, category = category e, description = description e\<rparr>"
    by (simp add: decode_line_def decodeExpense_def c parse_date_to_string [OF v] x csv_unescape_escape)
  also have "\<lparr>date = date e, amount = x, category = category e, description = description e\<rparr>
             = reread fmt stod e"
    by (simp add: reread_def x)
  finally show ?thesis .
qed

lemma line_body_no_newline:
  assumes "record_ok fmt stod e"
  shows "newline \<notin> set (line_body fmt e)"
proof -
  have v: "valid_date (date e)" "dt_y (date e) \<le> 9999" using assms by (auto simp: record_ok_def)
  show ?thesis
    using assms to_string_plain(3) [OF v] field_ok_escape(2)
    by (auto simp: line_body_def record_ok_def amount_text_ok_def)
qed

lemma save_text:
  "foldl (\<lambda>f e. f @ encode_line fmt e) acc es = acc @ concat (map (\<lambda>e. line_body fmt e @ [newline]) es)"
  by (induction es arbitrary: acc) (simp_all add: encode_line_def line_body_def)

lemma file_lines_bodies:
  "\<forall>e \<in> set es. record_ok fmt stod e \<Longrightarrow>
   file_lines (concat (map (\<lambda>e. line_body fmt e @ [newline]) es)) = map (line_body fmt) es"
proof (induction es)
  case Nil
  then show ?case by (simp add: file_lines_Nil)
next
  case (Cons e es)
  have "newline \<notin> set (line_body fmt e)" using Cons.prems line_body_no_newline by auto
  then show ?case using Cons by (simp add: file_lines_line)
qed

lemma map_filter_bodies:
  "\<forall>e \<in> set es. record_ok fmt stod e \<Longrightarrow>
   List.map_filter (decode_line stod) (map (line_body fmt) es) = map (reread fmt stod) es"
  by (induction es) (simp_all add: map_filter_simps decode_line_body)

lemma header_decodes_to_nothing: "decode_line stod header = None"
  by (rule header_line_no_record) (simp add: rfind0_def)

section \<open>Claims about saving and loading\<close>

text \<open>
  In the concrete stores below amounts are whole numbers, written by \<open>show_int\<close> and read
  by \<open>stoi\<close>: on such values \<open>operator<<\<close> on a \<open>double\<close> writes the same digits and
  \<open>std::stod\<close> reads the same value.
\<close>

lemma show_int_42: "show_int 42 = ''42''"
  by (simp add: show_int_def show_nat.simps char_of_eq_iff)

lemma to_string_20240115: "to_string \<lparr>dt_y = 2024, dt_m = 1, dt_d = 15\<rparr> = ''2024-01-15''"
  by (simp add: to_string_def show_int_def show_nat.simps setw_fill0_def char_of_eq_iff)

lemma to_string_100000101: "to_string \<lparr>dt_y = 10000, dt_m = 1, dt_d = 1\<rparr> = ''10000-01-01''"
  by (simp add: to_string_def show_int_def show_nat.simps setw_fill0_def char_of_eq_iff)

text \<open>
  C1, as stated, fails. A description with a newline is written quoted, but the loader
  reads line by line: the record comes back with the description cut at the newline, its
  opening quote still on it. A description that ends in a carriage return is written
  unquoted and loses the carriage return, which the loader strips as a line end. A record
  dated in the year 10000 is written with a five-digit year and is not loaded at all.
\<close>

theorem save_load_roundtrip_counterexample:
  "load_csv stoi ''e.csv'' \<lparr>expenses = []\<rparr>
     (snd (save_csv show_int ''e.csv''
        \<lparr>expenses = [\<lparr>date = \<lparr>dt_y = 2024, dt_m = 1, dt_d = 15\<rparr>, amount = 42,
                       category = ''Food'', description = [CHR ''a'', newline, CHR ''b'']\<rparr>]\<rparr>
        \<lparr>files = Map.empty, writable = (\<lambda>p. True)\<rparr>))
   = (True, \<lparr>expenses = [\<lparr>date = \<lparr>dt_y = 2024, dt_m = 1, dt_d = 15\<rparr>, amount = 42,
                       category = ''Food'', description = [dquote, CHR ''a'']\<rparr>]\<rparr>)
   \<and> load_csv stoi ''e.csv'' \<lparr>expenses = []\<rparr>
     (snd (save_csv show_int ''e.csv''
        \<lparr>expenses = [\<lparr>date = \<lparr>dt_y = 2024, dt_m = 1, dt_d = 15\<rparr>, amount = 42,
                       category = ''Food'', description = [CHR ''x'', cr]\<rparr>]\<rparr>
        \<lparr>files = Map.empty, writable = (\<lambda>p. True)\<rparr>))
   = (True, \<lparr>expenses = [\<lparr>date = \<lparr>dt_y = 2024, dt_m = 1, dt_d = 15\<rparr>, amount = 42,
                       category = ''Food'', description = ''x''\<rparr>]\<rparr>)
   \<and> valid_date \<lparr>dt_y = 10000, dt_m = 1, dt_d = 1\<rparr>
   \<and> load_csv stoi ''e.csv'' \<lparr>expenses = []\<rparr>
     (snd (save_csv show_int ''e.csv''
        \<lparr>expenses = [\<lparr>date = \<lparr>dt_y = 10000, dt_m = 1, dt_d = 1\<rparr>, amount = 42,
                       category = ''Food'', description = ''x''\<rparr>]\<rparr>
        \<lparr>files = Map.empty, writable = (\<lambda>p. True)\<rparr>))
   = (True, \<lparr>expenses = []\<rparr>)"
proof (intro conjI)
  let ?fs = "\<lparr>files = Map.empty, writable = (\<lambda>p. True)\<rparr>"
  let ?d = "\<lparr>dt_y = 2024, dt_m = 1, dt_d = 15\<rparr>"
  let ?e1 = "\<lparr>date = ?d, amount = 42 :: int, category = ''Food'', description = [CHR ''a'', newline, CHR ''b'']\<rparr>"
  let ?t1 = "header @ newline # ''2024-01-15,42,Food,'' @ [dquote, CHR ''a'', newline, CHR ''b'', dquote, newline]"
  have s1: "files (snd (save_csv show_int ''e.csv'' \<lparr>expenses = [?e1]\<rparr> ?fs)) ''e.csv'' = Some ?t1"
    by (simp add: save_csv_def encode_line_def show_int_42 to_string_20240115 csv_escape_def)
  have l1: "file_lines ?t1 = [header, ''2024-01-15,42,Food,'' @ [dquote, CHR ''a''], [CHR ''b'', dquote]]"
    by (simp add: file_eval header_def)
  have d1: "decode_line stoi (''2024-01-15,42,Food,'' @ [dquote, CHR ''a'']) =
      Some \<lparr>date = ?d, amount = 42, category = ''Food'', description = [dquote, CHR ''a'']\<rparr>"
    by (simp add: line_eval date_eval)
  have d1': "decode_line stoi [CHR ''b'', dquote] = None"
    by (simp add: line_eval date_eval)
  show "load_csv stoi ''e.csv'' \<lparr>expenses = []\<rparr> (snd (save_csv show_int ''e.csv'' \<lparr>expenses = [?e1]\<rparr> ?fs))
        = (True, \<lparr>expenses = [\<lparr>date = ?d, amount = 42, category = ''Food'', description = [dquote, CHR ''a'']\<rparr>]\<rparr>)"
    unfolding load_csv_opened [OF s1] l1
    by (simp add: map_filter_simps header_decodes_to_nothing d1 [simplified] d1')
next
  let ?fs = "\<lparr>files = Map.empty, writable = (\<lambda>p. True)\<rparr>"
  let ?d = "\<lparr>dt_y = 2024, dt_m = 1, dt_d = 15\<rparr>"
  let ?e2 = "\<lparr>date = ?d, amount = 42 :: int, category = ''Food'', description = [CHR ''x'', cr]\<rparr>"
  let ?t2 = "header @ newline # ''2024-01-15,42,Food,x'' @ [cr, newline]"
  have s2: "files (snd (save_csv show_int ''e.csv'' \<lparr>expenses = [?e2]\<rparr> ?fs)) ''e.csv'' = Some ?t2"
    by (simp add: save_csv_def encode_line_def show_int_42 to_string_20240115 csv_escape_def)
  have l2: "file_lines ?t2 = [header, ''2024-01-15,42,Food,x'' @ [cr]]"
    by (simp add: file_eval header_def)
  have d2: "decode_line stoi (''2024-01-15,42,Food,x'' @ [cr]) =
      Some \<lparr>date = ?d, amount = 42, category = ''Food'', description = ''x''\<rparr>"
    using strip_eol_snoc [of cr "''x''"]
    by (simp add: line_eval date_eval)
  show "load_csv stoi ''e.csv'' \<lparr>expenses = []\<rparr> (snd (save_csv show_int ''e.csv'' \<lparr>expenses = [?e2]\<rparr> ?fs))
        = (True, \<lparr>expenses = [\<lparr>date = ?d, amount = 42, category = ''Food'', description = ''x''\<rparr>]\<rparr>)"
    unfolding load_csv_opened [OF s2] l2
    by (simp add: map_filter_simps header_decodes_to_nothing d2 [simplified])
next
  show "valid_date \<lparr>dt_y = 10000, dt_m = 1, dt_d = 1\<rparr>"
    by (simp add: valid_date_def md_def)
next
  let ?fs = "\<lparr>files = Map.empty, writable = (\<lambda>p. True)\<rparr>"
  let ?e3 = "\<lparr>date = \<lparr>dt_y = 10000, dt_m = 1, dt_d = 1\<rparr>, amount = 42 :: int, category = ''Food'', description = ''x''\<rparr>"
  let ?t3 = "header @ newline # ''10000-01-01,42,Food,x'' @ [newline]"
  have s3: "files (snd (save_csv show_int ''e.csv'' \<lparr>expenses = [?e3]\<rparr> ?fs)) ''e.csv'' = Some ?t3"
    by (simp add: save_csv_def encode_line_def show_int_42 to_string_100000101 csv_escape_def)
  have l3: "file_lines ?t3 = [header, ''10000-01-01,42,Food,x'']"
    by (simp add: file_eval header_def)
  have d3: "decode_line stoi ''10000-01-01,42,Food,x'' = None"
    by (simp add: line_eval date_eval)
  show "load_csv stoi ''e.csv'' \<lparr>expenses = []\<rparr> (snd (save_csv show_int ''e.csv'' \<lparr>expenses = [?e3]\<rparr> ?fs))
        = (True, \<lparr>expenses = []\<rparr>)"
    unfolding load_csv_opened [OF s3] l3
    by (simp add: map_filter_simps header_decodes_to_nothing d3)
qed

text \<open>
  C1, amended. Let every record of the store have a valid date with a year of at most
  9999, a category and a description that hold no newline and do not end in a carriage
  return unless they hold a comma or a quote, and an amount whose written text holds no
  comma, quote, newline or carriage return and is read back by \<open>std::stod\<close>. Then saving
  the store to a path that opens for writing and loading that path gives success and the
  same number of records, in the same order, each with its date, category and
  description as they were and its amount as read back from its written text. Commas
  and quotes in the category and the description are allowed.
\<close>

theorem save_load_roundtrip:
  assumes "save_csv fmt path mgr fs = (True, fs')"
    and "\<forall>e \<in> set (expenses mgr). record_ok fmt stod e"
  shows "load_csv stod path mgr' fs' =
           (True, mgr'\<lparr>expenses := map (reread fmt stod) (expenses mgr)\<rparr>)"
proof -
  let ?text = "header @ newline # concat (map (\<lambda>e. line_body fmt e @ [newline]) (expenses mgr))"
  have "fs' = fs\<lparr>files := (files fs)(path \<mapsto> ?text)\<rparr>"
    using assms(1) by (simp add: save_csv_def save_text split: if_splits)
  then have o: "files fs' path = Some ?text" by simp
  have "newline \<notin> set header" by (simp add: header_def)
  then have l: "file_lines ?text = header # map (line_body fmt) (expenses mgr)"
    by (simp add: file_lines_line file_lines_bodies [OF assms(2)])
  show ?thesis
    unfolding load_csv_opened [OF o] l
    by (simp add: map_filter_simps header_decodes_to_nothing map_filter_bodies [OF assms(2)])
qed

theorem save_load_roundtrip_witness:
  "load_csv stoi ''e.csv'' \<lparr>expenses = []\<rparr>
     (snd (save_csv show_int ''e.csv''
        \<lparr>expenses = [\<lparr>date = \<lparr>dt_y = 2024, dt_m = 1, dt_d = 15\<rparr>, amount = 42,
                       category = ''Food'', description = ''Groceries''\<rparr>,
                     \<lparr>date = \<lparr>dt_y = 2024, dt_m = 1, dt_d = 15\<rparr>, amount = 42,
                       category = ''Rent, Utilities'', description = [CHR ''a'', dquote, CHR ''b'', dquote]\<rparr>]\<rparr>
        \<lparr>files = Map.empty, writable = (\<lambda>p. True)\<rparr>))
   = (True, \<lparr>expenses = [\<lparr>date = \<lparr>dt_y = 2024, dt_m = 1, dt_d = 15\<rparr>, amount = 42,
                       category = ''Food'', description = ''Groceries''\<rparr>,
                     \<lparr>date = \<lparr>dt_y = 2024, dt_m = 1, dt_d = 15\<rparr>, amount = 42,
                       category = ''Rent, Utilities'', description = [CHR ''a'', dquote, CHR ''b'', dquote]\<rparr>]\<rparr>)"
proof -
  let ?fs = "\<lparr>files = Map.empty, writable = (\<lambda>p. True)\<rparr>"
  let ?d = "\<lparr>dt_y = 2024, dt_m = 1, dt_d = 15\<rparr>"
  let ?e1 = "\<lparr>date = ?d, amount = 42 :: int, category = ''Food'', description = ''Groceries''\<rparr>"
  let ?e2 = "\<lparr>date = ?d, amount = 42 :: int, category = ''Rent, Utilities'',
              description = [CHR ''a'', dquote, CHR ''b'', dquote]\<rparr>"
  let ?m = "\<lparr>expenses = [?e1, ?e2]\<rparr>"
  have s: "save_csv show_int ''e.csv'' ?m ?fs = (True, snd (save_csv show_int ''e.csv'' ?m ?fs))"
    by (simp add: save_csv_def)
  have v: "valid_date ?d" by (simp add: valid_date_def md_def)
  have a: "amount_text_ok (show_int 42)" "stoi (show_int 42) = Some 42"
    by (simp_all add: show_int_42 amount_text_ok_def date_eval)
  have ok: "\<forall>e \<in> set (expenses ?m). record_ok show_int stoi e"
    using v a by (simp add: record_ok_def field_ok_def)
  have r: "map (reread show_int stoi) (expenses ?m) = [?e1, ?e2]"
    using a by (simp add: reread_def)
  show ?thesis
    using save_load_roundtrip [OF s ok, of "\<lparr>expenses = []\<rparr>"] unfolding r by simp
qed

end
